theory Spec2Isabelle
  imports Main "HOL-Library.Word" "HOL-Library.Code_Target_Nat"
begin

unbundle bit_operations_syntax

section \<open>The STM32 hash driver (core/drivers/crypto/stm32/stm32\_hash.c)\<close>

text \<open>
  A shallow embedding of the streaming part of the driver. The accelerator, the clock
  framework, the mutex and the monotonic clock are not part of the driver: they are a
  parameter of every function (a record of operations on a world state \<open>'w\<close>), so
  that every statement proved below holds for every behaviour of the hardware.
  Sizes (\<open>size_t\<close>) are natural numbers; the target is a 32-bit core, and the places
  where the C arithmetic can wrap are written out modulo \<open>2 ^ 32\<close>.
\<close>

subsection \<open>Register map and constants\<close>

type_synonym u8 = "8 word"
type_synonym u32 = "32 word"

definition HASH_CR :: nat where "HASH_CR = 0x00"
definition HASH_DIN :: nat where "HASH_DIN = 0x04"
definition HASH_STR :: nat where "HASH_STR = 0x08"
definition HASH_IMR :: nat where "HASH_IMR = 0x20"
definition HASH_SR :: nat where "HASH_SR = 0x24"
definition HASH_HR :: "nat \<Rightarrow> nat" where "HASH_HR x = 0x310 + x * 0x04"
definition HASH_CSR :: "nat \<Rightarrow> nat" where "HASH_CSR x = 0xF8 + x * 0x04"

definition BIT :: "nat \<Rightarrow> u32" where "BIT n = push_bit n 1"

definition HASH_CR_INIT :: u32 where "HASH_CR_INIT = BIT 2"
definition HASH_CR_MODE :: u32 where "HASH_CR_MODE = BIT 6"
definition HASH_CR_DATATYPE_SHIFT :: nat where "HASH_CR_DATATYPE_SHIFT = 4"
definition HASH_CR_DATATYPE_BYTE :: u32 where
  "HASH_CR_DATATYPE_BYTE = push_bit HASH_CR_DATATYPE_SHIFT 2"
definition HASH_CR_LKEY :: u32 where "HASH_CR_LKEY = BIT 16"

definition HASH_CR_ALGO_SHIFT :: nat where "HASH_CR_ALGO_SHIFT = 17"
definition HASH_CR_ALGO_MD5 :: u32 where "HASH_CR_ALGO_MD5 = BIT 7"
definition HASH_CR_ALGO_SHA1 :: u32 where "HASH_CR_ALGO_SHA1 = push_bit HASH_CR_ALGO_SHIFT 0x0"
definition HASH_CR_ALGO_SHA224 :: u32 where "HASH_CR_ALGO_SHA224 = push_bit HASH_CR_ALGO_SHIFT 0x2"
definition HASH_CR_ALGO_SHA256 :: u32 where "HASH_CR_ALGO_SHA256 = push_bit HASH_CR_ALGO_SHIFT 0x3"
definition HASH_CR_ALGO_SHA256_IF_MD5 :: u32 where "HASH_CR_ALGO_SHA256_IF_MD5 = BIT 18 OR BIT 7"
definition HASH_CR_ALGO_SHA384 :: u32 where "HASH_CR_ALGO_SHA384 = push_bit HASH_CR_ALGO_SHIFT 0xC"
definition HASH_CR_ALGO_SHA512 :: u32 where "HASH_CR_ALGO_SHA512 = push_bit HASH_CR_ALGO_SHIFT 0xF"
definition HASH_CR_ALGO_SHA3_224 :: u32 where "HASH_CR_ALGO_SHA3_224 = push_bit HASH_CR_ALGO_SHIFT 0x4"
definition HASH_CR_ALGO_SHA3_256 :: u32 where "HASH_CR_ALGO_SHA3_256 = push_bit HASH_CR_ALGO_SHIFT 0x5"
definition HASH_CR_ALGO_SHA3_384 :: u32 where "HASH_CR_ALGO_SHA3_384 = push_bit HASH_CR_ALGO_SHIFT 0x6"
definition HASH_CR_ALGO_SHA3_512 :: u32 where "HASH_CR_ALGO_SHA3_512 = push_bit HASH_CR_ALGO_SHIFT 0x7"

definition HASH_SR_DINIS :: u32 where "HASH_SR_DINIS = BIT 0"
definition HASH_SR_DCIS :: u32 where "HASH_SR_DCIS = BIT 1"
definition HASH_SR_BUSY :: u32 where "HASH_SR_BUSY = BIT 3"

definition HASH_STR_NBLW_MASK :: u32 where "HASH_STR_NBLW_MASK = 0x1F"
definition HASH_STR_DCAL :: u32 where "HASH_STR_DCAL = BIT 8"

definition SAVE_SMALL :: nat where "SAVE_SMALL = 1"
definition SAVE_BIG :: nat where "SAVE_BIG = 2"
definition SAVE_SHA3 :: nat where "SAVE_SHA3 = 3"

definition SAVE_SMALL_NB_REG :: nat where "SAVE_SMALL_NB_REG = 22"
definition SAVE_SMALL_FIRST_REG :: nat where "SAVE_SMALL_FIRST_REG = 0"
definition SAVE_SMALL_HMAC_NB_REG :: nat where "SAVE_SMALL_HMAC_NB_REG = 16"
definition SAVE_SMALL_HMAC_FIRST_REG :: nat where "SAVE_SMALL_HMAC_FIRST_REG = 38"
definition SAVE_BIG_NB_REG :: nat where "SAVE_BIG_NB_REG = 91"
definition SAVE_BIG_FIRST_REG :: nat where "SAVE_BIG_FIRST_REG = 0"
definition SAVE_BIG_HMAC_NB_REG :: nat where "SAVE_BIG_HMAC_NB_REG = 12"
definition SAVE_BIG_HMAC_FIRST_REG :: nat where "SAVE_BIG_HMAC_FIRST_REG = 91"
definition SAVE_SHA3_NB_REG :: nat where "SAVE_SHA3_NB_REG = 72"
definition SAVE_SHA3_FIRST_REG :: nat where "SAVE_SHA3_FIRST_REG = 0"
definition SAVE_SHA3_HMAC_NB_REG :: nat where "SAVE_SHA3_HMAC_NB_REG = 72"
definition SAVE_SHA3_HMAC_FIRST_REG :: nat where "SAVE_SHA3_HMAC_FIRST_REG = 16"

definition HASH_TIMEOUT_US :: nat where "HASH_TIMEOUT_US = 10000"

definition CAPS_MD5 :: u32 where "CAPS_MD5 = BIT 0"
definition CAPS_SHA1 :: u32 where "CAPS_SHA1 = BIT 1"
definition CAPS_SHA2_224 :: u32 where "CAPS_SHA2_224 = BIT 2"
definition CAPS_SHA2_256 :: u32 where "CAPS_SHA2_256 = BIT 3"
definition CAPS_SHA2_384 :: u32 where "CAPS_SHA2_384 = BIT 4"
definition CAPS_SHA2_512 :: u32 where "CAPS_SHA2_512 = BIT 5"
definition CAPS_SHA3 :: u32 where "CAPS_SHA3 = BIT 6"

datatype TEE_Result =
    TEE_SUCCESS
  | TEE_ERROR_BAD_STATE
  | TEE_ERROR_BAD_PARAMETERS
  | TEE_ERROR_BUSY
  | TEE_ERROR_OUT_OF_MEMORY
  | TEE_ERROR_NOT_IMPLEMENTED

text \<open>
  What C leaves undefined is a value of the model: a read or a write outside the object
  a pointer refers to, and a write through a null pointer.
\<close>

datatype fault = OutOfBounds | NullDeref

subsection \<open>The platform: registers, clock, lock, time\<close>

text \<open>
  \<open>io_read32\<close> and \<open>io_write32\<close> take the register offset from the device base.
  A read may change the world (time passes, the engine makes progress).
  \<open>timeout_init_us\<close> and \<open>timeout_elapsed\<close> are the kernel's (kernel/delay.h): a
  deadline on the monotonic counter. The model takes from the platform, when the
  deadline is computed, the number of calls of \<open>timeout_elapsed\<close> that will still
  answer "not elapsed"; a monotonic clock reaches every deadline after finitely many.
\<close>

record 'w platform =
  io_read32 :: "'w \<Rightarrow> nat \<Rightarrow> u32 \<times> 'w"
  io_write32 :: "'w \<Rightarrow> nat \<Rightarrow> u32 \<Rightarrow> 'w"
  timeout_init_us :: "'w \<Rightarrow> nat \<Rightarrow> nat"
  mutex_lock :: "'w \<Rightarrow> 'w"
  mutex_unlock :: "'w \<Rightarrow> 'w"
  clk_enable :: "'w \<Rightarrow> 'w"
  clk_disable :: "'w \<Rightarrow> 'w"

text \<open>The read-modify-write helpers of io.h.\<close>

definition io_clrsetbits32 :: "'w platform \<Rightarrow> 'w \<Rightarrow> nat \<Rightarrow> u32 \<Rightarrow> u32 \<Rightarrow> 'w" where
  "io_clrsetbits32 p w addr clear_mask set_mask =
     (let (v, w1) = io_read32 p w addr
      in io_write32 p w1 addr ((v AND NOT clear_mask) OR set_mask))"

definition io_setbits32 :: "'w platform \<Rightarrow> 'w \<Rightarrow> nat \<Rightarrow> u32 \<Rightarrow> 'w" where
  "io_setbits32 p w addr set_mask =
     (let (v, w1) = io_read32 p w addr in io_write32 p w1 addr (v OR set_mask))"

definition io_clrbits32 :: "'w platform \<Rightarrow> 'w \<Rightarrow> nat \<Rightarrow> u32 \<Rightarrow> 'w" where
  "io_clrbits32 p w addr clear_mask =
     (let (v, w1) = io_read32 p w addr in io_write32 p w1 addr (v AND NOT clear_mask))"

subsection \<open>Polling waits\<close>

text \<open>
  The loop of \<open>wait_end_busy\<close>: \<open>while (SR & BUSY) if (timeout_elapsed(t)) break;\<close>.
  The second argument counts the calls of \<open>timeout_elapsed\<close> that still answer false.
\<close>

fun busy_loop :: "'w platform \<Rightarrow> nat \<Rightarrow> 'w \<Rightarrow> 'w" where
  "busy_loop p 0 w =
     (let (sr, w1) = io_read32 p w HASH_SR in w1)"
| "busy_loop p (Suc n) w =
     (let (sr, w1) = io_read32 p w HASH_SR
      in if sr AND HASH_SR_BUSY \<noteq> 0 then busy_loop p n w1 else w1)"

definition wait_end_busy :: "'w platform \<Rightarrow> 'w \<Rightarrow> TEE_Result \<times> 'w" where
  "wait_end_busy p w =
     (let timeout = timeout_init_us p w HASH_TIMEOUT_US;
          w1 = busy_loop p timeout w;
          (sr, w2) = io_read32 p w1 HASH_SR
      in if sr AND HASH_SR_BUSY \<noteq> 0 then (TEE_ERROR_BUSY, w2) else (TEE_SUCCESS, w2))"

fun ready_loop :: "'w platform \<Rightarrow> nat \<Rightarrow> 'w \<Rightarrow> 'w" where
  "ready_loop p 0 w =
     (let (sr, w1) = io_read32 p w HASH_SR in w1)"
| "ready_loop p (Suc n) w =
     (let (sr, w1) = io_read32 p w HASH_SR
      in if sr AND HASH_SR_DCIS \<noteq> HASH_SR_DCIS then ready_loop p n w1 else w1)"

definition wait_digest_ready :: "'w platform \<Rightarrow> 'w \<Rightarrow> TEE_Result \<times> 'w" where
  "wait_digest_ready p w =
     (let timeout = timeout_init_us p w HASH_TIMEOUT_US;
          w1 = ready_loop p timeout w;
          (sr, w2) = io_read32 p w1 HASH_SR
      in if sr AND HASH_SR_DCIS \<noteq> HASH_SR_DCIS then (TEE_ERROR_BUSY, w2) else (TEE_SUCCESS, w2))"

definition hash_write_data :: "'w platform \<Rightarrow> 'w \<Rightarrow> u32 \<Rightarrow> TEE_Result \<times> 'w" where
  "hash_write_data p w data = wait_end_busy p (io_write32 p w HASH_DIN data)"

subsection \<open>Memory: bytes, words, copies\<close>

text \<open>
  The core is little-endian: the 32-bit value at a byte address has the first byte as
  its low byte. \<open>load32\<close> is \<open>memcpy(&tmp_buf, p, sizeof(uint32_t))\<close> and the
  read of \<open>((uint32_t *)buf)[i]\<close>; it needs four bytes inside the object.
\<close>

definition le32 :: "u8 \<Rightarrow> u8 \<Rightarrow> u8 \<Rightarrow> u8 \<Rightarrow> u32" where
  "le32 b0 b1 b2 b3 =
     ucast b0 OR push_bit 8 (ucast b1) OR push_bit 16 (ucast b2) OR push_bit 24 (ucast b3)"

definition load32 :: "u8 list \<Rightarrow> nat \<Rightarrow> u32 option" where
  "load32 m off =
     (if off + 4 \<le> length m
      then Some (le32 (m ! off) (m ! (off + 1)) (m ! (off + 2)) (m ! (off + 3)))
      else None)"

text \<open>\<open>memcpy(dst + off, src, n)\<close>: \<open>None\<close> when it leaves either object.\<close>

definition memcpy_at :: "u8 list \<Rightarrow> nat \<Rightarrow> u8 list \<Rightarrow> nat \<Rightarrow> u8 list option" where
  "memcpy_at dst off src n =
     (if n \<le> length src \<and> off + n \<le> length dst
      then Some (take off dst @ take n src @ drop (off + n) dst)
      else None)"

text \<open>\<open>memset(dst, 0, n)\<close>.\<close>

definition memset0 :: "u8 list \<Rightarrow> nat \<Rightarrow> u8 list option" where
  "memset0 dst n =
     (if n \<le> length dst then Some (replicate n 0 @ drop n dst) else None)"

text \<open>\<open>((uint32_t *)buf)[i] = 0\<close>.\<close>

definition zero32 :: "u8 list \<Rightarrow> nat \<Rightarrow> u8 list option" where
  "zero32 m i =
     (if 4 * i + 4 \<le> length m
      then Some (take (4 * i) m @ replicate 4 0 @ drop (4 * i + 4) m)
      else None)"

text \<open>\<open>size_t\<close> arithmetic of the 32-bit target.\<close>

definition sz_add :: "nat \<Rightarrow> nat \<Rightarrow> nat" where
  "sz_add a b = (a + b) mod 2 ^ 32"

definition sz_sub :: "nat \<Rightarrow> nat \<Rightarrow> nat" where
  "sz_sub a b = (a + 2 ^ 32 - b mod 2 ^ 32) mod 2 ^ 32"

definition ROUNDUP :: "nat \<Rightarrow> nat \<Rightarrow> nat" where
  "ROUNDUP v sz = ((v + (sz - 1)) mod 2 ^ 32) div sz * sz"

definition ROUNDUP_DIV :: "nat \<Rightarrow> nat \<Rightarrow> nat" where
  "ROUNDUP_DIV x y = ROUNDUP x y div y"

subsection \<open>The session context\<close>

text \<open>
  A pointer to an object the context owns is the address together with the object's
  present contents; \<open>NULL\<close> is the null pointer. The two buffers of a context are never
  shared with another context.
\<close>

datatype 'a ptr = NULL | Ptr nat 'a

datatype stm32_hash_mode = STM32_HMAC_MODE | STM32_HASH_MODE

datatype stm32_hash_algo =
    STM32_HASH_MD5
  | STM32_HASH_SHA1
  | STM32_HASH_SHA224
  | STM32_HASH_SHA256
  | STM32_HASH_SHA384
  | STM32_HASH_SHA512
  | STM32_HASH_SHA3_224
  | STM32_HASH_SHA3_256
  | STM32_HASH_SHA3_384
  | STM32_HASH_SHA3_512
  | STM32_HASH_OTHER nat

text \<open>
  \<open>struct stm32_hash_context\<close>, with the fields the driver uses. \<open>dev_caps\<close> is
  \<open>c->dev->pdata.compat->caps\<close>; \<open>remain_buf\<close> and \<open>remain_len\<close> are
  \<open>c->remain.buf\<close> and \<open>c->remain.len\<close>.
\<close>

record stm32_hash_context =
  dev_caps :: u32
  mode :: stm32_hash_mode
  algo :: stm32_hash_algo
  digest_u32 :: nat
  block_size :: nat
  save_mode :: nat
  queue_size :: nat
  remain_buf :: "u8 list ptr"
  remain_len :: nat
  csr :: "u32 list ptr"
  imr :: u32
  str :: u32
  cr :: u32

subsection \<open>Saving and restoring the engine's context\<close>

text \<open>
  \<open>get_save_registers\<close> writes through four pointers and leaves alone what no branch
  assigns; the argument is what the four variables hold at the call
  (\<open>nb_regs\<close>, \<open>first\<close>, \<open>hmac_nb_regs\<close>, \<open>hmac_first\<close>).
\<close>

type_synonym save_regs = "nat \<times> nat \<times> nat \<times> nat"

definition get_save_registers :: "stm32_hash_context \<Rightarrow> save_regs \<Rightarrow> save_regs" where
  "get_save_registers c r =
     (let r1 = (case r of (nb, first, hnb, hfirst) \<Rightarrow>
                  if save_mode c = SAVE_SMALL
                  then (if mode c = STM32_HMAC_MODE
                        then (SAVE_SMALL_NB_REG, SAVE_SMALL_FIRST_REG,
                              SAVE_SMALL_HMAC_NB_REG, SAVE_SMALL_HMAC_FIRST_REG)
                        else (SAVE_SMALL_NB_REG, SAVE_SMALL_FIRST_REG, hnb, hfirst))
                  else r);
          r2 = (case r1 of (nb, first, hnb, hfirst) \<Rightarrow>
                  if save_mode c = SAVE_BIG
                  then (if mode c = STM32_HMAC_MODE
                        then (SAVE_BIG_NB_REG, SAVE_BIG_FIRST_REG,
                              SAVE_BIG_HMAC_NB_REG, SAVE_BIG_HMAC_FIRST_REG)
                        else (SAVE_BIG_NB_REG, SAVE_BIG_FIRST_REG, hnb, hfirst))
                  else r1)
      in (case r2 of (nb, first, hnb, hfirst) \<Rightarrow>
            if save_mode c = SAVE_SHA3
            then (if mode c = STM32_HMAC_MODE
                  then (SAVE_SHA3_NB_REG, SAVE_SHA3_FIRST_REG,
                        SAVE_SHA3_HMAC_NB_REG, SAVE_SHA3_HMAC_FIRST_REG)
                  else (SAVE_SHA3_NB_REG, SAVE_SHA3_FIRST_REG, hnb, hfirst))
            else r2))"

text \<open>
  \<open>for (i = 0; i < n; i++) a[i + dst] = io_read32(base + _HASH_CSR(i + first));\<close>
  The first argument is the number of rounds left, the second is \<open>i\<close>.
\<close>

fun save_regs_loop ::
  "'w platform \<Rightarrow> nat \<Rightarrow> nat \<Rightarrow> nat \<Rightarrow> nat \<Rightarrow> u32 list \<Rightarrow> 'w \<Rightarrow> fault + (u32 list \<times> 'w)" where
  "save_regs_loop p 0 i first dst a w = Inr (a, w)"
| "save_regs_loop p (Suc k) i first dst a w =
     (let (v, w1) = io_read32 p w (HASH_CSR (i + first))
      in if i + dst < length a
         then save_regs_loop p k (Suc i) first dst (a[i + dst := v]) w1
         else Inl OutOfBounds)"

definition save_context ::
  "'w platform \<Rightarrow> stm32_hash_context \<Rightarrow> 'w \<Rightarrow> fault + (TEE_Result \<times> stm32_hash_context \<times> 'w)" where
  "save_context p c w =
     (let (res, w1) = wait_end_busy p w
      in if res \<noteq> TEE_SUCCESS then Inr (res, c, w1)
         else
           let (sr, w2) = io_read32 p w1 HASH_SR
           in if sr AND HASH_SR_DINIS = 0 then Inr (TEE_ERROR_BAD_STATE, c, w2)
              else
                let (v_imr, w3) = io_read32 p w2 HASH_IMR;
                    (v_str, w4) = io_read32 p w3 HASH_STR;
                    (v_cr, w5) = io_read32 p w4 HASH_CR;
                    c1 = c\<lparr>imr := v_imr, str := v_str, cr := v_cr\<rparr>
                in case get_save_registers c1 (0, 0, 0, 0) of
                     (nb_reg, first, hmac_nb_reg, hmac_first) \<Rightarrow>
                       (case csr c1 of
                          NULL \<Rightarrow> Inr (TEE_ERROR_BAD_STATE, c1, w5)
                        | Ptr a regs \<Rightarrow>
                            (case save_regs_loop p nb_reg 0 first 0 regs w5 of
                               Inl f \<Rightarrow> Inl f
                             | Inr (regs1, w6) \<Rightarrow>
                                 (case save_regs_loop p hmac_nb_reg 0 hmac_first nb_reg regs1 w6 of
                                    Inl f \<Rightarrow> Inl f
                                  | Inr (regs2, w7) \<Rightarrow>
                                      Inr (TEE_SUCCESS, c1\<lparr>csr := Ptr a regs2\<rparr>, w7)))))"

text \<open>
  \<open>for (i = 0; i < n; i++) io_write32(base + _HASH_CSR(i + first), a[i + src]);\<close>
\<close>

fun restore_regs_loop ::
  "'w platform \<Rightarrow> nat \<Rightarrow> nat \<Rightarrow> nat \<Rightarrow> nat \<Rightarrow> u32 list \<Rightarrow> 'w \<Rightarrow> fault + 'w" where
  "restore_regs_loop p 0 i first src a w = Inr w"
| "restore_regs_loop p (Suc k) i first src a w =
     (if i + src < length a
      then restore_regs_loop p k (Suc i) first src a
             (io_write32 p w (HASH_CSR (i + first)) (a ! (i + src)))
      else Inl OutOfBounds)"

definition restore_context ::
  "'w platform \<Rightarrow> stm32_hash_context \<Rightarrow> 'w \<Rightarrow> fault + (TEE_Result \<times> 'w)" where
  "restore_context p c w =
     (let w1 = io_write32 p w HASH_IMR (imr c);
          w2 = io_write32 p w1 HASH_STR (str c);
          w3 = io_write32 p w2 HASH_CR (cr c OR HASH_CR_INIT)
      in case get_save_registers c (0, 0, 0, 0) of
           (nb_reg, first, hmac_nb_reg, hmac_first) \<Rightarrow>
             (case csr c of
                NULL \<Rightarrow> Inr (TEE_ERROR_BAD_STATE, w3)
              | Ptr a regs \<Rightarrow>
                  (case restore_regs_loop p nb_reg 0 first 0 regs w3 of
                     Inl f \<Rightarrow> Inl f
                   | Inr w4 \<Rightarrow>
                       (case restore_regs_loop p hmac_nb_reg 0 hmac_first nb_reg regs w4 of
                          Inl f \<Rightarrow> Inl f
                        | Inr w5 \<Rightarrow> Inr (TEE_SUCCESS, w5)))))"

subsection \<open>Programming the engine\<close>

text \<open>\<open>memcpy(&tmp_buf, key, n)\<close> into a zeroed word, for \<open>n < 4\<close>.\<close>

definition load_partial :: "u8 list \<Rightarrow> nat \<Rightarrow> u32 option" where
  "load_partial m n =
     (if n \<le> length m then load32 (take n m @ replicate 4 0) 0 else None)"

text \<open>
  The first loop of \<open>write_key\<close>: \<open>while (len / sizeof(uint32_t))\<close>. It returns
  what is left of the key and of \<open>len\<close>.
\<close>

function write_key_loop ::
  "'w platform \<Rightarrow> u8 list \<Rightarrow> nat \<Rightarrow> 'w \<Rightarrow> fault + (TEE_Result \<times> u8 list \<times> nat \<times> 'w)" where
  "write_key_loop p key len w =
     (if len div 4 \<noteq> 0
      then (case load32 key 0 of
              None \<Rightarrow> Inl OutOfBounds
            | Some tmp_buf \<Rightarrow>
                (let (res, w1) = hash_write_data p w tmp_buf
                 in if res \<noteq> TEE_SUCCESS then Inr (res, key, len, w1)
                    else write_key_loop p (drop 4 key) (len - 4) w1))
      else Inr (TEE_SUCCESS, key, len, w))"
  by pat_completeness auto
termination
  by (relation "measure (\<lambda>(p, key, len, w). len)") auto

definition write_key ::
  "'w platform \<Rightarrow> 'w \<Rightarrow> u8 list \<Rightarrow> nat \<Rightarrow> fault + (TEE_Result \<times> 'w)" where
  "write_key p w key len =
     (let w1 = io_clrsetbits32 p w HASH_STR HASH_STR_NBLW_MASK (of_nat (8 * (len mod 4)))
      in case write_key_loop p key len w1 of
           Inl f \<Rightarrow> Inl f
         | Inr (res, key1, len1, w2) \<Rightarrow>
             if res \<noteq> TEE_SUCCESS then Inr (res, w2)
             else if len1 \<noteq> 0
             then (case load_partial key1 len1 of
                     None \<Rightarrow> Inl OutOfBounds
                   | Some tmp_buf \<Rightarrow>
                       (let (res2, w3) = hash_write_data p w2 tmp_buf
                        in if res2 \<noteq> TEE_SUCCESS then Inr (res2, w3)
                           else Inr (TEE_SUCCESS, io_setbits32 p w3 HASH_STR HASH_STR_DCAL)))
             else Inr (TEE_SUCCESS, io_setbits32 p w2 HASH_STR HASH_STR_DCAL))"

text \<open>The object a key or data pointer refers to; a null pointer refers to nothing.\<close>

definition extent :: "u8 list option \<Rightarrow> u8 list" where
  "extent b = (case b of None \<Rightarrow> [] | Some d \<Rightarrow> d)"

text \<open>The \<open>switch (c->algo)\<close> of \<open>hw_init\<close>; \<open>None\<close> is its \<open>default\<close> case.\<close>

definition algo_cr_bits :: "stm32_hash_context \<Rightarrow> u32 option" where
  "algo_cr_bits c =
     (case algo c of
        STM32_HASH_MD5 \<Rightarrow> Some HASH_CR_ALGO_MD5
      | STM32_HASH_SHA1 \<Rightarrow> Some HASH_CR_ALGO_SHA1
      | STM32_HASH_SHA224 \<Rightarrow> Some HASH_CR_ALGO_SHA224
      | STM32_HASH_SHA384 \<Rightarrow> Some HASH_CR_ALGO_SHA384
      | STM32_HASH_SHA512 \<Rightarrow> Some HASH_CR_ALGO_SHA512
      | STM32_HASH_SHA3_224 \<Rightarrow> Some HASH_CR_ALGO_SHA3_224
      | STM32_HASH_SHA3_256 \<Rightarrow> Some HASH_CR_ALGO_SHA3_256
      | STM32_HASH_SHA3_384 \<Rightarrow> Some HASH_CR_ALGO_SHA3_384
      | STM32_HASH_SHA3_512 \<Rightarrow> Some HASH_CR_ALGO_SHA3_512
      | STM32_HASH_SHA256 \<Rightarrow>
          (if dev_caps c AND CAPS_MD5 \<noteq> 0 then Some HASH_CR_ALGO_SHA256_IF_MD5
           else Some HASH_CR_ALGO_SHA256)
      | STM32_HASH_OTHER n \<Rightarrow> None)"

definition hw_init ::
  "'w platform \<Rightarrow> stm32_hash_context \<Rightarrow> u8 list option \<Rightarrow> nat \<Rightarrow> 'w \<Rightarrow> fault + (TEE_Result \<times> 'w)" where
  "hw_init p c key len w =
     (case algo_cr_bits c of
        None \<Rightarrow> Inr (TEE_ERROR_BAD_STATE, w)
      | Some bits \<Rightarrow>
          (let reg_cr = HASH_CR_INIT OR HASH_CR_DATATYPE_BYTE OR bits
           in if mode c = STM32_HMAC_MODE
              then (let reg_cr1 = reg_cr OR HASH_CR_MODE;
                        reg_cr2 = (if len > block_size c then reg_cr1 OR HASH_CR_LKEY else reg_cr1)
                    in write_key p (io_write32 p w HASH_CR reg_cr2) (extent key) len)
              else Inr (TEE_SUCCESS, io_write32 p w HASH_CR reg_cr)))"

subsection \<open>Reading the digest\<close>

definition TEE_U32_BSWAP :: "u32 \<Rightarrow> u32" where
  "TEE_U32_BSWAP x =
     push_bit 24 (x AND 0xFF) OR push_bit 8 (x AND 0xFF00) OR
     drop_bit 8 (x AND 0xFF0000) OR drop_bit 24 (x AND 0xFF000000)"

definition store32 :: "u32 \<Rightarrow> u8 list" where
  "store32 x = [ucast x, ucast (drop_bit 8 x), ucast (drop_bit 16 x), ucast (drop_bit 24 x)]"

fun digest_loop ::
  "'w platform \<Rightarrow> nat \<Rightarrow> nat \<Rightarrow> u8 list \<Rightarrow> 'w \<Rightarrow> fault + (u8 list \<times> 'w)" where
  "digest_loop p 0 i digest w = Inr (digest, w)"
| "digest_loop p (Suc k) i digest w =
     (let (v, w1) = io_read32 p w (HASH_HR i)
      in case memcpy_at digest (i * 4) (store32 (TEE_U32_BSWAP v)) 4 of
           None \<Rightarrow> Inl OutOfBounds
         | Some digest1 \<Rightarrow> digest_loop p k (Suc i) digest1 w1)"

definition hash_get_digest ::
  "'w platform \<Rightarrow> stm32_hash_context \<Rightarrow> u8 list \<Rightarrow> 'w \<Rightarrow> fault + (TEE_Result \<times> u8 list \<times> 'w)" where
  "hash_get_digest p c digest w =
     (let (res, w1) = wait_digest_ready p w
      in if res \<noteq> TEE_SUCCESS then Inr (res, digest, w1)
         else (case digest_loop p (digest_u32 c) 0 digest w1 of
                 Inl f \<Rightarrow> Inl f
               | Inr (digest1, w2) \<Rightarrow> Inr (TEE_SUCCESS, digest1, w2)))"

definition stm32_hash_digest_size :: "stm32_hash_context \<Rightarrow> nat" where
  "stm32_hash_digest_size c = digest_u32 c * 4"

subsection \<open>Copying a session\<close>

text \<open>
  \<open>stm32_hash_deep_copy\<close>, for two distinct context objects (a null argument is
  \<open>None\<close>). The structure is copied whole, the destination keeps its own two
  buffers, and the pending bytes and the snapshot words are copied into them;
  \<open>memcpy\<close> through a null buffer pointer is undefined.
\<close>

text \<open>\<open>memcpy(dst, src, n * sizeof(uint32_t))\<close>.\<close>

definition memcpy_words :: "u32 list \<Rightarrow> u32 list \<Rightarrow> nat \<Rightarrow> u32 list option" where
  "memcpy_words dst src n =
     (if n \<le> length src \<and> n \<le> length dst then Some (take n src @ drop n dst) else None)"

definition stm32_hash_deep_copy ::
  "stm32_hash_context option \<Rightarrow> stm32_hash_context option
     \<Rightarrow> fault + (TEE_Result \<times> stm32_hash_context option)" where
  "stm32_hash_deep_copy dst src =
     (case (dst, src) of
        (Some d, Some s) \<Rightarrow>
          if mode d \<noteq> mode s \<or> algo d \<noteq> algo s then Inr (TEE_ERROR_BAD_PARAMETERS, dst)
          else
            (let d1 = s\<lparr>remain_buf := remain_buf d, csr := csr d\<rparr>
             in case (remain_buf d1, remain_buf s) of
                  (Ptr a buf, Ptr b sbuf) \<Rightarrow>
                    (case memcpy_at buf 0 sbuf (remain_len d1) of
                       None \<Rightarrow> Inl OutOfBounds
                     | Some buf1 \<Rightarrow>
                         (case get_save_registers d1 (0, 0, 0, 0) of
                            (nb_reg, first, hmac_nb_reg, hmac_first) \<Rightarrow>
                              (case (csr d1, csr s) of
                                 (Ptr a2 dregs, Ptr b2 sregs) \<Rightarrow>
                                   (case memcpy_words dregs sregs (nb_reg + hmac_nb_reg) of
                                      None \<Rightarrow> Inl OutOfBounds
                                    | Some dregs1 \<Rightarrow>
                                        Inr (TEE_SUCCESS,
                                             Some (d1\<lparr>remain_buf := Ptr a buf1,
                                                      csr := Ptr a2 dregs1\<rparr>)))
                               | _ \<Rightarrow> Inl NullDeref)))
                | _ \<Rightarrow> Inl NullDeref)
      | _ \<Rightarrow> Inr (TEE_ERROR_BAD_PARAMETERS, dst))"

subsection \<open>Allocation\<close>

text \<open>
  The allocator (\<open>calloc\<close>, \<open>free\<close>) is the C library's. The heap records the
  addresses of the live blocks; \<open>plan\<close> says, for each coming call of \<open>calloc\<close>,
  whether it succeeds (an exhausted plan: it succeeds).
\<close>

record heap =
  live :: "nat list"
  brk :: nat
  plan :: "bool list"

definition calloc :: "heap \<Rightarrow> nat option \<times> heap" where
  "calloc h =
     (case plan h of
        False # r \<Rightarrow> (None, h\<lparr>plan := r\<rparr>)
      | _ \<Rightarrow> (Some (brk h),
              h\<lparr>live := brk h # live h, brk := Suc (brk h), plan := tl (plan h)\<rparr>))"

definition free :: "heap \<Rightarrow> 'a ptr \<Rightarrow> heap" where
  "free h q = (case q of NULL \<Rightarrow> h | Ptr a x \<Rightarrow> h\<lparr>live := removeAll a (live h)\<rparr>)"

text \<open>\<open>struct stm32_hash_device\<close>, as far as the driver reads it: the capabilities.\<close>

record stm32_hash_device =
  caps :: u32

text \<open>
  The \<open>switch (algo)\<close> of \<open>stm32_hash_alloc\<close>: the capability bit the algorithm
  needs, then \<open>digest_u32\<close>, \<open>block_size\<close> and \<open>save_mode\<close>.
\<close>

definition algo_params :: "stm32_hash_algo \<Rightarrow> (u32 \<times> nat \<times> nat \<times> nat) option" where
  "algo_params a =
     (case a of
        STM32_HASH_MD5 \<Rightarrow> Some (CAPS_MD5, 4, 64, SAVE_SMALL)
      | STM32_HASH_SHA1 \<Rightarrow> Some (CAPS_SHA1, 5, 64, SAVE_SMALL)
      | STM32_HASH_SHA224 \<Rightarrow> Some (CAPS_SHA2_224, 7, 64, SAVE_SMALL)
      | STM32_HASH_SHA384 \<Rightarrow> Some (CAPS_SHA2_384, 12, 128, SAVE_BIG)
      | STM32_HASH_SHA512 \<Rightarrow> Some (CAPS_SHA2_512, 16, 128, SAVE_BIG)
      | STM32_HASH_SHA3_224 \<Rightarrow> Some (CAPS_SHA3, 7, 144, SAVE_SHA3)
      | STM32_HASH_SHA3_256 \<Rightarrow> Some (CAPS_SHA3, 8, 136, SAVE_SHA3)
      | STM32_HASH_SHA3_384 \<Rightarrow> Some (CAPS_SHA3, 12, 104, SAVE_SHA3)
      | STM32_HASH_SHA3_512 \<Rightarrow> Some (CAPS_SHA3, 16, 72, SAVE_SHA3)
      | STM32_HASH_SHA256 \<Rightarrow> Some (CAPS_SHA2_256, 8, 64, SAVE_SMALL)
      | STM32_HASH_OTHER n \<Rightarrow> None)"

text \<open>
  \<open>stm32_hash\<close> is the driver's global device pointer (\<open>None\<close> before the probe).
\<close>

definition stm32_hash_alloc ::
  "stm32_hash_device option \<Rightarrow> heap \<Rightarrow> stm32_hash_context \<Rightarrow> stm32_hash_mode \<Rightarrow> stm32_hash_algo
     \<Rightarrow> TEE_Result \<times> stm32_hash_context \<times> heap" where
  "stm32_hash_alloc stm32_hash h c md al =
     (case stm32_hash of
        None \<Rightarrow> (TEE_ERROR_NOT_IMPLEMENTED, c, h)
      | Some dev \<Rightarrow>
          (let c1 = c\<lparr>dev_caps := caps dev, mode := md, algo := al\<rparr>
           in case algo_params al of
                None \<Rightarrow> (TEE_ERROR_NOT_IMPLEMENTED, c1, h)
              | Some (cap, dg, bs, sm) \<Rightarrow>
                  if dev_caps c1 AND cap = 0 then (TEE_ERROR_NOT_IMPLEMENTED, c1, h)
                  else
                    (let c2 = c1\<lparr>digest_u32 := dg, block_size := bs, save_mode := sm\<rparr>
                     in case calloc h of
                          (None, h1) \<Rightarrow>
                            (TEE_ERROR_OUT_OF_MEMORY, c2\<lparr>remain_buf := NULL\<rparr>, h1)
                        | (Some a, h1) \<Rightarrow>
                            (let c3 = c2\<lparr>remain_buf := Ptr a (replicate (block_size c2 + 4) 0)\<rparr>
                             in case get_save_registers c3 (0, 0, 0, 0) of
                                  (nb_reg, first, hmac_nb_reg, hmac_first) \<Rightarrow>
                                    (case calloc h1 of
                                       (None, h2) \<Rightarrow>
                                         (TEE_ERROR_OUT_OF_MEMORY, c3\<lparr>csr := NULL\<rparr>,
                                          free h2 (remain_buf c3))
                                     | (Some b, h2) \<Rightarrow>
                                         (TEE_SUCCESS,
                                          c3\<lparr>csr := Ptr b (replicate (nb_reg + hmac_nb_reg) 0)\<rparr>,
                                          h2))))))"

definition stm32_hash_free :: "heap \<Rightarrow> stm32_hash_context option \<Rightarrow> heap" where
  "stm32_hash_free h c =
     (case c of None \<Rightarrow> h | Some c1 \<Rightarrow> free (free h (remain_buf c1)) (csr c1))"

subsection \<open>Streaming: update\<close>

text \<open>The \<open>exit\<close> label: clock off, lock released, result returned.\<close>

definition leave ::
  "'w platform \<Rightarrow> TEE_Result \<Rightarrow> stm32_hash_context \<Rightarrow> 'w
     \<Rightarrow> fault + (TEE_Result \<times> stm32_hash_context \<times> 'w)" where
  "leave p res c w = Inr (res, c, mutex_unlock p (clk_disable p w))"

text \<open>
  \<open>for (i = 0; i < n; i++) { res = hash_write_data(base, buf[i]); if (res) goto exit;
  buf[i] = 0; }\<close> over the pending buffer, in \<open>update\<close> and in \<open>final\<close>.
\<close>

fun flush_loop ::
  "'w platform \<Rightarrow> nat \<Rightarrow> nat \<Rightarrow> u8 list \<Rightarrow> 'w \<Rightarrow> fault + (TEE_Result \<times> u8 list \<times> 'w)" where
  "flush_loop p 0 i buf w = Inr (TEE_SUCCESS, buf, w)"
| "flush_loop p (Suc k) i buf w =
     (case load32 buf (4 * i) of
        None \<Rightarrow> Inl OutOfBounds
      | Some v \<Rightarrow>
          (let (res, w1) = hash_write_data p w v
           in if res \<noteq> TEE_SUCCESS then Inr (res, buf, w1)
              else (case zero32 buf i of
                      None \<Rightarrow> Inl OutOfBounds
                    | Some buf1 \<Rightarrow> flush_loop p k (Suc i) buf1 w1)))"

text \<open>
  "First write data saved in previous update": the block under
  \<open>if (c->remain.len)\<close>. It returns the context, what is left of the caller's data
  and of \<open>len\<close>.
\<close>

definition write_saved ::
  "'w platform \<Rightarrow> stm32_hash_context \<Rightarrow> u8 list \<Rightarrow> nat \<Rightarrow> 'w
     \<Rightarrow> fault + (TEE_Result \<times> stm32_hash_context \<times> u8 list \<times> nat \<times> 'w)" where
  "write_saved p c d len w =
     (if remain_len c \<noteq> 0
      then (case remain_buf c of
              NULL \<Rightarrow> Inr (TEE_ERROR_BAD_STATE, c, d, len, w)
            | Ptr a buf \<Rightarrow>
                (let align = sz_sub (ROUNDUP (remain_len c) 4) (remain_len c)
                 in case memcpy_at buf (remain_len c) d align of
                      None \<Rightarrow> Inl OutOfBounds
                    | Some buf1 \<Rightarrow>
                        (let rl = sz_add (remain_len c) align;
                             d1 = drop align d;
                             len1 = sz_sub len align
                         in case flush_loop p (rl div 4) 0 buf1 w of
                              Inl f \<Rightarrow> Inl f
                            | Inr (res, buf2, w1) \<Rightarrow>
                                if res \<noteq> TEE_SUCCESS
                                then Inr (res, c\<lparr>remain_buf := Ptr a buf2, remain_len := rl\<rparr>,
                                          d1, len1, w1)
                                else Inr (TEE_SUCCESS,
                                          c\<lparr>remain_buf := Ptr a buf2, remain_len := 0\<rparr>,
                                          d1, len1, w1))))
      else Inr (TEE_SUCCESS, c, d, len, w))"

text \<open>
  \<open>while (len >= c->queue_size || !(io_read32(base + _HASH_SR) & _HASH_SR_DINIS))\<close>:
  one word of the caller's data per round. The status register is read only when the
  first disjunct is false.
\<close>

function feed_loop ::
  "'w platform \<Rightarrow> nat \<Rightarrow> u8 list \<Rightarrow> nat \<Rightarrow> 'w \<Rightarrow> fault + (TEE_Result \<times> u8 list \<times> nat \<times> 'w)" where
  "feed_loop p qs d len w =
     (let (go, w1) = (if len \<ge> qs then (True, w)
                      else (let (sr, w0) = io_read32 p w HASH_SR
                            in (sr AND HASH_SR_DINIS = 0, w0)))
      in if go
         then (case load32 d 0 of
                 None \<Rightarrow> Inl OutOfBounds
               | Some tmp_buf \<Rightarrow>
                   (let (res, w2) = hash_write_data p w1 tmp_buf
                    in if res \<noteq> TEE_SUCCESS then Inr (res, d, len, w2)
                       else feed_loop p qs (drop 4 d) (sz_sub len 4) w2))
         else Inr (TEE_SUCCESS, d, len, w1))"
  by pat_completeness auto
termination
  by (relation "measure (\<lambda>(p, qs, d, len, w). length d)")
     (auto simp: load32_def split: if_splits)

definition stm32_hash_update ::
  "'w platform \<Rightarrow> stm32_hash_context \<Rightarrow> u8 list option \<Rightarrow> nat \<Rightarrow> 'w
     \<Rightarrow> fault + (TEE_Result \<times> stm32_hash_context \<times> 'w)" where
  "stm32_hash_update p c buffer len w =
     (if len = 0 \<or> buffer = None then Inr (TEE_SUCCESS, c, w)
      else
        (let d = extent buffer;
             w1 = clk_enable p (mutex_lock p w)
         in case restore_context p c w1 of
              Inl f \<Rightarrow> Inl f
            | Inr (res, w2) \<Rightarrow>
                if res \<noteq> TEE_SUCCESS then leave p res c w2
                else if sz_add (remain_len c) len < queue_size c
                then (case remain_buf c of
                        NULL \<Rightarrow> leave p TEE_ERROR_BAD_STATE c w2
                      | Ptr a buf \<Rightarrow>
                          (case memcpy_at buf (remain_len c) d len of
                             None \<Rightarrow> Inl OutOfBounds
                           | Some buf1 \<Rightarrow>
                               leave p TEE_SUCCESS
                                 (c\<lparr>remain_buf := Ptr a buf1,
                                    remain_len := sz_add (remain_len c) len\<rparr>) w2))
                else
                  (case write_saved p c d len w2 of
                     Inl f \<Rightarrow> Inl f
                   | Inr (res1, c1, d1, len1, w3) \<Rightarrow>
                       if res1 \<noteq> TEE_SUCCESS then leave p res1 c1 w3
                       else
                         (let next_queue_size =
                                (if len1 \<ge> queue_size c1 then block_size c1 else queue_size c1)
                          in case feed_loop p (queue_size c1) d1 len1 w3 of
                               Inl f \<Rightarrow> Inl f
                             | Inr (res2, d2, len2, w4) \<Rightarrow>
                                 if res2 \<noteq> TEE_SUCCESS then leave p res2 c1 w4
                                 else
                                   (let c2 = c1\<lparr>queue_size := next_queue_size\<rparr>
                                    in if len2 \<noteq> 0
                                       then (case remain_buf c2 of
                                               NULL \<Rightarrow> leave p TEE_ERROR_BAD_STATE c2 w4
                                             | Ptr a buf \<Rightarrow>
                                                 (case memcpy_at buf 0 d2 len2 of
                                                    None \<Rightarrow> Inl OutOfBounds
                                                  | Some buf1 \<Rightarrow>
                                                      (case save_context p
                                                              (c2\<lparr>remain_buf := Ptr a buf1,
                                                                  remain_len := len2\<rparr>) w4 of
                                                         Inl f \<Rightarrow> Inl f
                                                       | Inr (res3, c3, w5) \<Rightarrow> leave p res3 c3 w5)))
                                       else (case save_context p c2 w4 of
                                               Inl f \<Rightarrow> Inl f
                                             | Inr (res3, c3, w5) \<Rightarrow> leave p res3 c3 w5))))))"

subsection \<open>Streaming: final and init\<close>

text \<open>The \<open>exit\<close> label of \<open>final\<close>, which also hands back the digest buffer.\<close>

definition leave_final ::
  "'w platform \<Rightarrow> TEE_Result \<Rightarrow> stm32_hash_context \<Rightarrow> u8 list \<Rightarrow> 'w
     \<Rightarrow> fault + (TEE_Result \<times> stm32_hash_context \<times> u8 list \<times> 'w)" where
  "leave_final p res c digest w = Inr (res, c, digest, mutex_unlock p (clk_disable p w))"

text \<open>
  The tail of \<open>final\<close>, from \<open>io_setbits32(base + _HASH_STR, _HASH_STR_DCAL)\<close> on.
\<close>

definition final_digest ::
  "'w platform \<Rightarrow> stm32_hash_context \<Rightarrow> u8 list \<Rightarrow> u8 list option \<Rightarrow> nat \<Rightarrow> 'w
     \<Rightarrow> fault + (TEE_Result \<times> stm32_hash_context \<times> u8 list \<times> 'w)" where
  "final_digest p c digest key len w =
     (let w1 = io_setbits32 p w HASH_STR HASH_STR_DCAL
      in case (if mode c = STM32_HMAC_MODE then write_key p w1 (extent key) len
               else Inr (TEE_SUCCESS, w1)) of
           Inl f \<Rightarrow> Inl f
         | Inr (res, w2) \<Rightarrow>
             if res \<noteq> TEE_SUCCESS then leave_final p res c digest w2
             else (case hash_get_digest p c digest w2 of
                     Inl f \<Rightarrow> Inl f
                   | Inr (res1, digest1, w3) \<Rightarrow> leave_final p res1 c digest1 w3))"

definition stm32_hash_final ::
  "'w platform \<Rightarrow> stm32_hash_context \<Rightarrow> u8 list \<Rightarrow> u8 list option \<Rightarrow> nat \<Rightarrow> 'w
     \<Rightarrow> fault + (TEE_Result \<times> stm32_hash_context \<times> u8 list \<times> 'w)" where
  "stm32_hash_final p c digest key len w =
     (if (key = None \<or> len = 0) \<and> mode c \<noteq> STM32_HASH_MODE
      then Inr (TEE_ERROR_BAD_STATE, c, digest, w)
      else
        (let w1 = clk_enable p (mutex_lock p w)
         in case restore_context p c w1 of
              Inl f \<Rightarrow> Inl f
            | Inr (res, w2) \<Rightarrow>
                if res \<noteq> TEE_SUCCESS then leave_final p res c digest w2
                else if remain_len c \<noteq> 0
                then (case remain_buf c of
                        NULL \<Rightarrow> leave_final p TEE_ERROR_BAD_STATE c digest w2
                      | Ptr a buf \<Rightarrow>
                          (case flush_loop p (ROUNDUP_DIV (remain_len c) 4) 0 buf w2 of
                             Inl f \<Rightarrow> Inl f
                           | Inr (res1, buf1, w3) \<Rightarrow>
                               if res1 \<noteq> TEE_SUCCESS
                               then leave_final p res1 (c\<lparr>remain_buf := Ptr a buf1\<rparr>) digest w3
                               else
                                 (let w4 = io_clrsetbits32 p w3 HASH_STR HASH_STR_NBLW_MASK
                                             (of_nat (8 * (remain_len c mod 4)))
                                  in final_digest p
                                       (c\<lparr>remain_buf := Ptr a buf1, remain_len := 0\<rparr>)
                                       digest key len w4)))
                else final_digest p c digest key len
                       (io_clrbits32 p w2 HASH_STR HASH_STR_NBLW_MASK)))"

definition stm32_hash_init ::
  "'w platform \<Rightarrow> stm32_hash_context \<Rightarrow> u8 list option \<Rightarrow> nat \<Rightarrow> 'w
     \<Rightarrow> fault + (TEE_Result \<times> stm32_hash_context \<times> 'w)" where
  "stm32_hash_init p c key len w =
     (if (key = None \<or> len = 0) \<and> mode c \<noteq> STM32_HASH_MODE
      then Inr (TEE_ERROR_BAD_PARAMETERS, c, w)
      else
        (let w1 = clk_enable p (mutex_lock p w);
             c1 = c\<lparr>remain_len := 0, queue_size := sz_add (block_size c) 4\<rparr>
         in case remain_buf c1 of
              NULL \<Rightarrow> Inl NullDeref
            | Ptr a buf \<Rightarrow>
                (case memset0 buf (queue_size c1) of
                   None \<Rightarrow> Inl OutOfBounds
                 | Some buf1 \<Rightarrow>
                     (let c2 = c1\<lparr>remain_buf := Ptr a buf1\<rparr>
                      in case hw_init p c2 key len w1 of
                           Inl f \<Rightarrow> Inl f
                         | Inr (res, w2) \<Rightarrow>
                             if res \<noteq> TEE_SUCCESS then leave p res c2 w2
                             else (case save_context p c2 w2 of
                                     Inl f \<Rightarrow> Inl f
                                   | Inr (res1, c3, w3) \<Rightarrow> leave p res1 c3 w3)))))"

subsection \<open>Sequences of calls\<close>

text \<open>
  A session's life between calls: \<open>init\<close> and \<open>update\<close> calls one after the other,
  each on the context and the world the call before left. The run goes on as long as
  the calls return \<open>TEE_SUCCESS\<close>.
\<close>

datatype call = Init "u8 list option" nat | Update "u8 list option" nat

definition do_call ::
  "'w platform \<Rightarrow> stm32_hash_context \<Rightarrow> 'w \<Rightarrow> call
     \<Rightarrow> fault + (TEE_Result \<times> stm32_hash_context \<times> 'w)" where
  "do_call p c w x =
     (case x of
        Init key len \<Rightarrow> stm32_hash_init p c key len w
      | Update buffer len \<Rightarrow> stm32_hash_update p c buffer len w)"

fun run_calls ::
  "'w platform \<Rightarrow> stm32_hash_context \<Rightarrow> 'w \<Rightarrow> call list \<Rightarrow> (stm32_hash_context \<times> 'w) option" where
  "run_calls p c w [] = Some (c, w)"
| "run_calls p c w (x # xs) =
     (case do_call p c w x of
        Inr (TEE_SUCCESS, c1, w1) \<Rightarrow> run_calls p c1 w1 xs
      | _ \<Rightarrow> None)"








subsection \<open>A simulated engine for closed examples\<close>

text \<open>
  The status register answers from a script, then with \<open>sr_idle\<close>; the other
  registers are plain storage; the words written to the data register are recorded in
  order; every deadline lets \<open>budget\<close> polls through; \<open>locks\<close> counts the
  acquisitions of the mutex.
\<close>

record sim =
  sr_script :: "u32 list"
  sr_idle :: u32
  regs :: "(nat \<times> u32) list"
  din :: "u32 list"
  budget :: nat
  locks :: nat

definition sim_read :: "sim \<Rightarrow> nat \<Rightarrow> u32 \<times> sim" where
  "sim_read w off =
     (if off = HASH_SR
      then (case sr_script w of [] \<Rightarrow> (sr_idle w, w) | x # xs \<Rightarrow> (x, w\<lparr>sr_script := xs\<rparr>))
      else (case map_of (regs w) off of None \<Rightarrow> (0, w) | Some v \<Rightarrow> (v, w)))"

definition sim_write :: "sim \<Rightarrow> nat \<Rightarrow> u32 \<Rightarrow> sim" where
  "sim_write w off v =
     (if off = HASH_DIN then w\<lparr>din := din w @ [v]\<rparr>
      else w\<lparr>regs := (off, v) # filter (\<lambda>kv. fst kv \<noteq> off) (regs w)\<rparr>)"

definition sim_platform :: "sim platform" where
  "sim_platform =
     \<lparr>io_read32 = sim_read, io_write32 = sim_write,
      timeout_init_us = (\<lambda>w us. budget w),
      mutex_lock = (\<lambda>w. w\<lparr>locks := Suc (locks w)\<rparr>),
      mutex_unlock = (\<lambda>w. w),
      clk_enable = (\<lambda>w. w),
      clk_disable = (\<lambda>w. w)\<rparr>"

text \<open>An engine at rest: never busy, data-input flag and digest flag set.\<close>

definition sim_idle :: sim where
  "sim_idle = \<lparr>sr_script = [], sr_idle = HASH_SR_DINIS OR HASH_SR_DCIS, regs = [], din = [],
               budget = 2, locks = 0\<rparr>"

text \<open>A SHA-256 session as \<open>stm32_hash_alloc\<close> leaves it on a device with every capability.\<close>

definition blank_context :: stm32_hash_context where
  "blank_context =
     \<lparr>dev_caps = 0, mode = STM32_HASH_MODE, algo = STM32_HASH_OTHER 0, digest_u32 = 0,
      block_size = 0, save_mode = 0, queue_size = 0, remain_buf = NULL, remain_len = 0,
      csr = NULL, imr = 0, str = 0, cr = 0\<rparr>"

definition empty_heap :: heap where
  "empty_heap = \<lparr>live = [], brk = 1, plan = []\<rparr>"

definition sha256_session :: "stm32_hash_mode \<Rightarrow> stm32_hash_context" where
  "sha256_session md =
     fst (snd (stm32_hash_alloc (Some \<lparr>caps = 0x7F\<rparr>) empty_heap blank_context md
                 STM32_HASH_SHA256))"

subsection \<open>An accumulating engine for closed examples\<close>









subsection \<open>Notions used in the statements\<close>

text \<open>What \<open>stm32_hash_alloc\<close> fixes for the life of a session.\<close>

definition same_class :: "stm32_hash_context \<Rightarrow> stm32_hash_context \<Rightarrow> bool" where
  "same_class c c' \<longleftrightarrow>
     mode c' = mode c \<and> algo c' = algo c \<and> save_mode c' = save_mode c \<and>
     block_size c' = block_size c \<and> digest_u32 c' = digest_u32 c \<and> dev_caps c' = dev_caps c"

text \<open>
  The bytes \<open>update\<close> borrows from the caller's data to bring the pending bytes to a
  multiple of four (\<open>align\<close> in the source; nothing when nothing is pending).
\<close>

definition pending_align :: "stm32_hash_context \<Rightarrow> nat" where
  "pending_align c =
     (if remain_len c \<noteq> 0 then sz_sub (ROUNDUP (remain_len c) 4) (remain_len c) else 0)"

text \<open>
  The world after \<open>k\<close> reads of the status register, and what the next read of it
  returns there.
\<close>

fun sr_after :: "'w platform \<Rightarrow> nat \<Rightarrow> 'w \<Rightarrow> 'w" where
  "sr_after p 0 w = w"
| "sr_after p (Suc k) w = sr_after p k (snd (io_read32 p w HASH_SR))"

definition sr_poll :: "'w platform \<Rightarrow> nat \<Rightarrow> 'w \<Rightarrow> u32" where
  "sr_poll p k w = fst (io_read32 p (sr_after p k w) HASH_SR)"

text \<open>
  The context-class table as the specification gives it: plain registers, their
  offset, HMAC registers, their offset; and the class of each algorithm.
\<close>

datatype context_class = Small | Big | Sha3

definition spec_class_table :: "context_class \<Rightarrow> save_regs" where
  "spec_class_table k =
     (case k of Small \<Rightarrow> (22, 0, 16, 38) | Big \<Rightarrow> (91, 0, 12, 91) | Sha3 \<Rightarrow> (72, 0, 72, 16))"

definition spec_class_of :: "stm32_hash_algo \<Rightarrow> context_class option" where
  "spec_class_of a =
     (case a of
        STM32_HASH_MD5 \<Rightarrow> Some Small
      | STM32_HASH_SHA1 \<Rightarrow> Some Small
      | STM32_HASH_SHA224 \<Rightarrow> Some Small
      | STM32_HASH_SHA256 \<Rightarrow> Some Small
      | STM32_HASH_SHA384 \<Rightarrow> Some Big
      | STM32_HASH_SHA512 \<Rightarrow> Some Big
      | STM32_HASH_SHA3_224 \<Rightarrow> Some Sha3
      | STM32_HASH_SHA3_256 \<Rightarrow> Some Sha3
      | STM32_HASH_SHA3_384 \<Rightarrow> Some Sha3
      | STM32_HASH_SHA3_512 \<Rightarrow> Some Sha3
      | STM32_HASH_OTHER n \<Rightarrow> None)"

definition class_code :: "context_class \<Rightarrow> nat" where
  "class_code k = (case k of Small \<Rightarrow> SAVE_SMALL | Big \<Rightarrow> SAVE_BIG | Sha3 \<Rightarrow> SAVE_SHA3)"

text \<open>
  Register accesses in sequence: the values read at a list of offsets, and the world
  after writing a list of offset/value pairs, in order.
\<close>

fun read_seq :: "'w platform \<Rightarrow> nat list \<Rightarrow> 'w \<Rightarrow> u32 list \<times> 'w" where
  "read_seq p [] w = ([], w)"
| "read_seq p (off # offs) w =
     (let (v, w1) = io_read32 p w off;
          (vs, w2) = read_seq p offs w1
      in (v # vs, w2))"

fun write_seq :: "'w platform \<Rightarrow> (nat \<times> u32) list \<Rightarrow> 'w \<Rightarrow> 'w" where
  "write_seq p [] w = w"
| "write_seq p (x # xs) w = write_seq p xs (io_write32 p w (fst x) (snd x))"

text \<open>
  The offsets of the accumulator registers the table gives a session of class \<open>k\<close>
  in mode \<open>md\<close>, in the order of the snapshot: the plain range, then the HMAC range.
\<close>

definition spec_saved_offsets :: "context_class \<Rightarrow> stm32_hash_mode \<Rightarrow> nat list" where
  "spec_saved_offsets k md =
     (case spec_class_table k of
        (nb, first, hnb, hfirst) \<Rightarrow>
          map HASH_CSR [first..<first + nb]
          @ (if md = STM32_HMAC_MODE then map HASH_CSR [hfirst..<hfirst + hnb] else []))"

text \<open>The class code of the session is the one the table gives its algorithm.\<close>

definition class_by_algo :: "stm32_hash_context \<Rightarrow> bool" where
  "class_by_algo c \<longleftrightarrow>
     (case spec_class_of (algo c) of Some k \<Rightarrow> save_mode c = class_code k | None \<Rightarrow> False)"

text \<open>A heap whose next address is fresh.\<close>

definition heap_ok :: "heap \<Rightarrow> bool" where
  "heap_ok h \<longleftrightarrow> list_all (\<lambda>a. a < brk h) (live h)"

text \<open>
  What holds of a session at rest once it has been initialised: the pending bytes fit
  the buffer, and the threshold is one of the two the driver uses.
\<close>

definition session_inv :: "stm32_hash_context \<Rightarrow> bool" where
  "session_inv c \<longleftrightarrow>
     block_size c < 2 ^ 32 - 4 \<and> remain_len c < block_size c + 4 \<and>
     (queue_size c = block_size c \<or> queue_size c = block_size c + 4)"

text \<open>
  The simulated engine is quiet when nothing is scripted and its status register shows
  the input flag and the digest flag and no busy bit.
\<close>

definition quiet :: "sim \<Rightarrow> bool" where
  "quiet w \<longleftrightarrow> sr_script w = [] \<and> sr_idle w = HASH_SR_DINIS OR HASH_SR_DCIS"

text \<open>
  A session as \<open>stm32_hash_alloc\<close> and \<open>stm32_hash_init\<close> leave it: block size a
  multiple of the word size, buffers of the allocated sizes, pending bytes within the
  buffer, threshold one of the two the driver uses.
\<close>

definition session_ok :: "stm32_hash_context \<Rightarrow> bool" where
  "session_ok c \<longleftrightarrow>
     block_size c mod 4 = 0 \<and> 4 \<le> block_size c \<and> block_size c < 2 ^ 32 - 4 \<and>
     remain_len c < block_size c + 4 \<and>
     (queue_size c = block_size c \<or> queue_size c = block_size c + 4) \<and>
     (case remain_buf c of NULL \<Rightarrow> False | Ptr a buf \<Rightarrow> length buf = block_size c + 4) \<and>
     (case csr c of
        NULL \<Rightarrow> False
      | Ptr b rs \<Rightarrow>
          (case get_save_registers c (0, 0, 0, 0) of
             (nb_reg, first, hmac_nb_reg, hmac_first) \<Rightarrow> nb_reg + hmac_nb_reg \<le> length rs))"




text \<open>The rounds of the word loop of \<open>update\<close> on a quiet engine.\<close>

definition feed_rounds :: "nat \<Rightarrow> nat \<Rightarrow> nat" where
  "feed_rounds qs len = (if len < qs then 0 else (len - qs) div 4 + 1)"

declare feed_loop.simps [simp del] write_key_loop.simps [simp del]

section \<open>Properties\<close>

subsection \<open>Empty updates\<close>

text \<open>
  C9. For every session, \<open>update\<close> with a data length of 0, and likewise with a null
  data pointer whatever the stated length, returns success at once: the context comes
  back unchanged in every field and so does the world, for every platform, so the lock
  was not taken, the clock not touched and no register read or written.
\<close>

theorem update_empty_is_noop:
  "len = 0 \<or> buffer = None \<Longrightarrow> stm32_hash_update p c buffer len w = Inr (TEE_SUCCESS, c, w)"
  by (simp add: stm32_hash_update_def)

theorem update_empty_is_noop_witness:
  "stm32_hash_update sim_platform (sha256_session STM32_HASH_MODE) None 5 sim_idle
     = Inr (TEE_SUCCESS, sha256_session STM32_HASH_MODE, sim_idle)
   \<and> stm32_hash_update sim_platform (sha256_session STM32_HASH_MODE) (Some [1, 2]) 0 sim_idle
     = Inr (TEE_SUCCESS, sha256_session STM32_HASH_MODE, sim_idle)"
  using update_empty_is_noop [of 5 None sim_platform "sha256_session STM32_HASH_MODE" sim_idle]
        update_empty_is_noop [of 0 "Some [1, 2]" sim_platform "sha256_session STM32_HASH_MODE" sim_idle]
  by simp

subsection \<open>Result codes and frames of the building blocks\<close>

lemma wait_end_busy_result:
  "wait_end_busy p w = (r, w') \<Longrightarrow> r = TEE_SUCCESS \<or> r = TEE_ERROR_BUSY"
  by (auto simp: wait_end_busy_def Let_def split: prod.splits if_splits)

lemma hash_write_data_result:
  "hash_write_data p w v = (r, w') \<Longrightarrow> r = TEE_SUCCESS \<or> r = TEE_ERROR_BUSY"
  unfolding hash_write_data_def by (rule wait_end_busy_result)

lemma write_key_loop_result:
  "write_key_loop p key len w = Inr (r, key', len', w') \<Longrightarrow> r = TEE_SUCCESS \<or> r = TEE_ERROR_BUSY"
proof (induction p key len w rule: write_key_loop.induct)
  case (1 p key len w)
  show ?case using "1.prems" "1.IH"
    apply (subst (asm) write_key_loop.simps)
    apply (auto simp: Let_def split: prod.splits if_splits option.splits dest: hash_write_data_result)
    done
qed

lemma write_key_result:
  "write_key p w key len = Inr (r, w') \<Longrightarrow> r = TEE_SUCCESS \<or> r = TEE_ERROR_BUSY"
  unfolding write_key_def
  by (auto simp: Let_def split: prod.splits if_splits option.splits sum.splits
           dest: hash_write_data_result write_key_loop_result)

lemma hw_init_result:
  "hw_init p c key len w = Inr (r, w') \<Longrightarrow> r \<noteq> TEE_ERROR_BAD_PARAMETERS"
  unfolding hw_init_def
  by (auto simp: Let_def split: option.splits if_splits dest: write_key_result)

lemma save_context_frame:
  assumes "save_context p c w = Inr (r, c', w')"
  shows "same_class c c' \<and> queue_size c' = queue_size c \<and> remain_len c' = remain_len c
         \<and> remain_buf c' = remain_buf c \<and> r \<noteq> TEE_ERROR_BAD_PARAMETERS"
  using assms unfolding save_context_def same_class_def
  by (auto simp: Let_def split: prod.splits if_splits ptr.splits sum.splits dest: wait_end_busy_result)

lemma init_proceeds:
  assumes "\<not> ((key = None \<or> len = 0) \<and> mode c \<noteq> STM32_HASH_MODE)"
      and "stm32_hash_init p c key len w = Inr (r, c', w')"
  shows "r \<noteq> TEE_ERROR_BAD_PARAMETERS \<and> (\<exists>w''. w' = mutex_unlock p (clk_disable p w''))
         \<and> same_class c c' \<and> queue_size c' = sz_add (block_size c) 4 \<and> remain_len c' = 0"
  using assms unfolding stm32_hash_init_def leave_def
  apply (simp add: Let_def split: prod.splits if_splits ptr.splits sum.splits option.splits)
  apply (auto dest!: save_context_frame hw_init_result simp: same_class_def)
  done

lemma feed_loop_exit_len:
  "feed_loop p qs d len w = Inr (TEE_SUCCESS, d', len', w') \<Longrightarrow> len' < qs"
proof (induction p qs d len w rule: feed_loop.induct)
  case (1 p qs d len w)
  show ?case using "1.prems" "1.IH"
    apply (subst (asm) feed_loop.simps)
    apply (auto simp: Let_def split: prod.splits if_splits option.splits)
    done
qed

lemma write_saved_frame:
  assumes "write_saved p c d len w = Inr (r, c1, d1, len1, w1)"
  shows "same_class c c1 \<and> queue_size c1 = queue_size c
         \<and> (r = TEE_SUCCESS \<longrightarrow> remain_len c1 = 0 \<and> (len < 2 ^ 32 \<longrightarrow> len1 = sz_sub len (pending_align c)))"
  using assms unfolding write_saved_def same_class_def pending_align_def
  by (auto simp: Let_def sz_sub_def split: prod.splits if_splits ptr.splits sum.splits option.splits)

lemma update_effect:
  assumes "stm32_hash_update p c buffer len w = Inr (r, c', w')"
  shows "same_class c c'
       \<and> (queue_size c' = queue_size c \<or> queue_size c' = block_size c)
       \<and> (r = TEE_SUCCESS \<and> len \<noteq> 0 \<and> buffer \<noteq> None \<longrightarrow> remain_len c' < queue_size c)
       \<and> (r = TEE_SUCCESS \<and> len < 2 ^ 32 \<longrightarrow>
            queue_size c' =
              (if len \<noteq> 0 \<and> buffer \<noteq> None \<and> queue_size c \<le> sz_add (remain_len c) len
                  \<and> queue_size c \<le> sz_sub len (pending_align c)
               then block_size c else queue_size c))"
  using assms unfolding stm32_hash_update_def leave_def
  apply (simp add: Let_def split: prod.splits if_splits ptr.splits sum.splits option.splits)
  apply (auto dest!: save_context_frame write_saved_frame feed_loop_exit_len simp: same_class_def)
  done


lemma init_success_past_check:
  "stm32_hash_init p c key klen w = Inr (TEE_SUCCESS, c', w')
     \<Longrightarrow> \<not> ((key = None \<or> klen = 0) \<and> mode c \<noteq> STM32_HASH_MODE)"
  by (rule notI) (simp add: stm32_hash_init_def)

lemma same_class_refl: "same_class c c"
  by (simp add: same_class_def)

lemma update_threshold_stays:
  assumes "stm32_hash_update p c buffer len w = Inr (r, c', w')" and "queue_size c = block_size c"
  shows "queue_size c' = block_size c'"
  using update_effect [OF assms(1)] assms(2) by (auto simp: same_class_def)

lemma updates_threshold_stay:
  "queue_size c = block_size c \<Longrightarrow> \<forall>x\<in>set cs. \<exists>b l. x = Update b l
     \<Longrightarrow> run_calls p c w cs = Some (c', w') \<Longrightarrow> queue_size c' = block_size c'"
proof (induction cs arbitrary: c w)
  case Nil
  then show ?case by simp
next
  case (Cons x cs)
  from Cons.prems(2) obtain b l where x: "x = Update b l" by auto
  from Cons.prems(3) x obtain c1 w1
    where u: "stm32_hash_update p c b l w = Inr (TEE_SUCCESS, c1, w1)"
      and r: "run_calls p c1 w1 cs = Some (c', w')"
    by (auto simp: do_call_def split: sum.splits TEE_Result.splits)
  have "queue_size c1 = block_size c1"
    by (rule update_threshold_stays [OF u Cons.prems(1)])
  then show ?case using Cons.IH [of c1 w1] Cons.prems(2) r by simp
qed

subsection \<open>The key check of init\<close>

text \<open>
  C5, as stated, fails: in HMAC mode \<open>init\<close> with a null key and a zero length
  returns \<open>TEE_ERROR_BAD_PARAMETERS\<close>, not \<open>TEE_ERROR_BAD_STATE\<close>.
\<close>

theorem init_hmac_without_key_counterexample:
  "mode (sha256_session STM32_HMAC_MODE) = STM32_HMAC_MODE
   \<and> stm32_hash_init sim_platform (sha256_session STM32_HMAC_MODE) None 0 sim_idle
       = Inr (TEE_ERROR_BAD_PARAMETERS, sha256_session STM32_HMAC_MODE, sim_idle)
   \<and> stm32_hash_init sim_platform (sha256_session STM32_HMAC_MODE) None 0 sim_idle
       \<noteq> Inr (TEE_ERROR_BAD_STATE, sha256_session STM32_HMAC_MODE, sim_idle)"
  by code_simp

text \<open>
  C5, amended. For every session in HMAC mode, \<open>init\<close> with a null key pointer or a
  zero key length fails with the bad-parameters error, and context and world come back
  untouched (no lock, no register access, no change of the session). With a key and a
  non-zero length the call goes past the check: it never answers bad-parameters, it
  releases the lock it took, and it has reset the pending length to 0 and the threshold
  to \<open>block_size + 4\<close>.
\<close>

theorem init_hmac_key_check:
  assumes "mode c = STM32_HMAC_MODE"
  shows "((key = None \<or> len = 0) \<longrightarrow>
            stm32_hash_init p c key len w = Inr (TEE_ERROR_BAD_PARAMETERS, c, w))
       \<and> (key \<noteq> None \<and> len \<noteq> 0 \<longrightarrow>
            (\<forall>r c' w'. stm32_hash_init p c key len w = Inr (r, c', w') \<longrightarrow>
               r \<noteq> TEE_ERROR_BAD_PARAMETERS \<and> (\<exists>w''. w' = mutex_unlock p (clk_disable p w''))
               \<and> queue_size c' = sz_add (block_size c) 4 \<and> remain_len c' = 0))"
proof (intro conjI impI allI)
  assume "key = None \<or> len = 0"
  with assms show "stm32_hash_init p c key len w = Inr (TEE_ERROR_BAD_PARAMETERS, c, w)"
    by (simp add: stm32_hash_init_def)
next
  fix r c' w'
  assume k: "key \<noteq> None \<and> len \<noteq> 0" and i: "stm32_hash_init p c key len w = Inr (r, c', w')"
  from k have n: "\<not> ((key = None \<or> len = 0) \<and> mode c \<noteq> STM32_HASH_MODE)" by simp
  from init_proceeds [OF n i]
  show "r \<noteq> TEE_ERROR_BAD_PARAMETERS" "\<exists>w''. w' = mutex_unlock p (clk_disable p w'')"
       "queue_size c' = sz_add (block_size c) 4" "remain_len c' = 0"
    by blast+
qed

theorem init_hmac_key_check_witness:
  "stm32_hash_init sim_platform (sha256_session STM32_HMAC_MODE) (Some [1, 2, 3]) 0 sim_idle
       = Inr (TEE_ERROR_BAD_PARAMETERS, sha256_session STM32_HMAC_MODE, sim_idle)
   \<and> (case stm32_hash_init sim_platform (sha256_session STM32_HMAC_MODE) (Some [1, 2, 3]) 3 sim_idle of
         Inr (r, c', w') \<Rightarrow> r = TEE_SUCCESS \<and> queue_size c' = 68 \<and> locks w' = 1 | Inl f \<Rightarrow> False)"
proof -
  have m: "mode (sha256_session STM32_HMAC_MODE) = STM32_HMAC_MODE" by code_simp
  have r: "stm32_hash_init sim_platform (sha256_session STM32_HMAC_MODE) (Some [1, 2, 3]) 3 sim_idle
     = Inr (TEE_SUCCESS, fst (snd (projr (stm32_hash_init sim_platform (sha256_session STM32_HMAC_MODE) (Some [1, 2, 3]) 3 sim_idle))), snd (snd (projr (stm32_hash_init sim_platform (sha256_session STM32_HMAC_MODE) (Some [1, 2, 3]) 3 sim_idle))))"
    by code_simp
  have l: "locks (snd (snd (projr (stm32_hash_init sim_platform (sha256_session STM32_HMAC_MODE) (Some [1, 2, 3]) 3 sim_idle)))) = 1"
    by code_simp
  have b: "sz_add (block_size (sha256_session STM32_HMAC_MODE)) 4 = 68" by code_simp
  show ?thesis
    using init_hmac_key_check [OF m, of "Some [1, 2, 3]" 0 sim_platform sim_idle]
          init_hmac_key_check [OF m, of "Some [1, 2, 3]" 3 sim_platform sim_idle] r l b
    by (auto split: sum.splits)
qed


subsection \<open>Allocation failures\<close>

lemma calloc_cases:
  "calloc h = (q, h1) \<Longrightarrow>
     (q = None \<and> live h1 = live h \<and> brk h1 = brk h \<and> (\<exists>r. plan h = False # r \<and> plan h1 = r))
   \<or> (q = Some (brk h) \<and> live h1 = brk h # live h \<and> brk h1 = Suc (brk h)
        \<and> plan h1 = tl (plan h) \<and> (\<forall>r. plan h \<noteq> False # r))"
  by (auto simp: calloc_def split: list.splits bool.splits)

lemma removeAll_fresh: "heap_ok h \<Longrightarrow> removeAll (brk h) (live h) = live h"
  by (auto simp: heap_ok_def list_all_iff)

text \<open>
  C10. On a device that has the algorithm: when the first \<open>calloc\<close> (the pending
  buffer) fails, \<open>stm32_hash_alloc\<close> returns the out-of-memory error; when the first
  succeeds and the second (the register array) fails, it returns the out-of-memory
  error after freeing the pending buffer, whose address is no longer live; and whenever
  it returns the out-of-memory error the live blocks are those from before the call.
\<close>

theorem alloc_out_of_memory:
  assumes ok: "heap_ok h"
      and a: "stm32_hash_alloc (Some dev) h c md al = (res, c', h')"
      and ap: "algo_params al = Some (cap, dg, bs, sm)"
      and cp: "caps dev AND cap \<noteq> 0"
  shows "(plan h = False # r \<longrightarrow> res = TEE_ERROR_OUT_OF_MEMORY \<and> live h' = live h)
       \<and> (plan h = True # False # r \<longrightarrow>
            res = TEE_ERROR_OUT_OF_MEMORY \<and> live h' = live h \<and> brk h \<notin> set (live h')
            \<and> brk h' = Suc (brk h))
       \<and> (res = TEE_ERROR_OUT_OF_MEMORY \<longrightarrow> live h' = live h)"
proof -
  obtain q1 h1 where c1: "calloc h = (q1, h1)" by (cases "calloc h")
  obtain q2 h2 where c2: "calloc h1 = (q2, h2)" by (cases "calloc h1")
  note k1 = calloc_cases [OF c1] and k2 = calloc_cases [OF c2]
  note fr = removeAll_fresh [OF ok]
  have nin: "brk h \<notin> set (live h)" using ok by (auto simp: heap_ok_def list_all_iff)
  show ?thesis
    using a ap cp c1 c2 k1 k2 fr nin
    unfolding stm32_hash_alloc_def
    by (auto simp: Let_def free_def split: prod.splits option.splits if_splits)
qed

theorem alloc_out_of_memory_witness:
  "heap_ok empty_heap
   \<and> fst (stm32_hash_alloc (Some \<lparr>caps = 0x7F\<rparr>) (empty_heap\<lparr>plan := [True, False]\<rparr>) blank_context
            STM32_HASH_MODE STM32_HASH_SHA256) = TEE_ERROR_OUT_OF_MEMORY
   \<and> live (snd (snd (stm32_hash_alloc (Some \<lparr>caps = 0x7F\<rparr>) (empty_heap\<lparr>plan := [True, False]\<rparr>)
            blank_context STM32_HASH_MODE STM32_HASH_SHA256))) = []
   \<and> fst (stm32_hash_alloc (Some \<lparr>caps = 0x7F\<rparr>) (empty_heap\<lparr>plan := [False]\<rparr>) blank_context
            STM32_HASH_MODE STM32_HASH_SHA256) = TEE_ERROR_OUT_OF_MEMORY"
proof -
  let ?h = "empty_heap\<lparr>plan := [True, False]\<rparr>"
  let ?g = "empty_heap\<lparr>plan := [False]\<rparr>"
  let ?dev = "\<lparr>caps = 0x7F\<rparr>"
  have ok: "heap_ok ?h" "heap_ok ?g" "heap_ok empty_heap"
    by (simp_all add: heap_ok_def empty_heap_def)
  have ap: "algo_params STM32_HASH_SHA256 = Some (CAPS_SHA2_256, 8, 64, SAVE_SMALL)"
    by (simp add: algo_params_def)
  have cp: "caps ?dev AND CAPS_SHA2_256 \<noteq> 0"
    by (simp add: CAPS_SHA2_256_def BIT_def)
  let ?a = "stm32_hash_alloc (Some ?dev) ?h blank_context STM32_HASH_MODE STM32_HASH_SHA256"
  let ?b = "stm32_hash_alloc (Some ?dev) ?g blank_context STM32_HASH_MODE STM32_HASH_SHA256"
  have l: "live ?h = []" "live ?g = []" "plan ?h = True # False # []" "plan ?g = False # []"
    by (simp_all add: empty_heap_def)
  show ?thesis
    using alloc_out_of_memory [where h = ?h and dev = ?dev and c = blank_context
            and md = STM32_HASH_MODE and al = STM32_HASH_SHA256 and res = "fst ?a"
            and c' = "fst (snd ?a)" and h' = "snd (snd ?a)" and r = "[]", OF ok(1) _ ap cp]
          alloc_out_of_memory [where h = ?g and dev = ?dev and c = blank_context
            and md = STM32_HASH_MODE and al = STM32_HASH_SHA256 and res = "fst ?b"
            and c' = "fst (snd ?b)" and h' = "snd (snd ?b)" and r = "[]", OF ok(2) _ ap cp]
          ok(3) l
    by simp
qed


subsection \<open>The polling waits\<close>

lemma busy_loop_reads:
  "k \<le> n \<Longrightarrow> (\<forall>j<k. sr_poll p j w AND HASH_SR_BUSY \<noteq> 0)
     \<Longrightarrow> k = n \<or> sr_poll p k w AND HASH_SR_BUSY = 0
     \<Longrightarrow> busy_loop p n w = sr_after p (Suc k) w"
proof (induction n arbitrary: k w)
  case 0
  then show ?case by (simp add: split_def)
next
  case (Suc n)
  show ?case
  proof (cases k)
    case 0
    with Suc.prems show ?thesis by (auto simp: split_def sr_poll_def)
  next
    case (Suc k')
    have b0: "sr_poll p 0 w AND HASH_SR_BUSY \<noteq> 0" using Suc.prems(2) Suc by blast
    let ?w1 = "snd (io_read32 p w HASH_SR)"
    have shift: "\<And>j. sr_poll p j ?w1 = sr_poll p (Suc j) w" by (simp add: sr_poll_def)
    have "busy_loop p n ?w1 = sr_after p (Suc k') ?w1"
    proof (rule Suc.IH)
      show "k' \<le> n" using Suc.prems(1) Suc by simp
      show "\<forall>j<k'. sr_poll p j ?w1 AND HASH_SR_BUSY \<noteq> 0"
        using Suc.prems(2) Suc shift by auto
      show "k' = n \<or> sr_poll p k' ?w1 AND HASH_SR_BUSY = 0"
        using Suc.prems(3) Suc shift by auto
    qed
    with b0 Suc show ?thesis by (simp add: split_def sr_poll_def)
  qed
qed

lemma ready_loop_reads:
  "k \<le> n \<Longrightarrow> (\<forall>j<k. sr_poll p j w AND HASH_SR_DCIS \<noteq> HASH_SR_DCIS)
     \<Longrightarrow> k = n \<or> sr_poll p k w AND HASH_SR_DCIS = HASH_SR_DCIS
     \<Longrightarrow> ready_loop p n w = sr_after p (Suc k) w"
proof (induction n arbitrary: k w)
  case 0
  then show ?case by (simp add: split_def)
next
  case (Suc n)
  show ?case
  proof (cases k)
    case 0
    with Suc.prems show ?thesis by (auto simp: split_def sr_poll_def)
  next
    case (Suc k')
    have b0: "sr_poll p 0 w AND HASH_SR_DCIS \<noteq> HASH_SR_DCIS" using Suc.prems(2) Suc by blast
    let ?w1 = "snd (io_read32 p w HASH_SR)"
    have shift: "\<And>j. sr_poll p j ?w1 = sr_poll p (Suc j) w" by (simp add: sr_poll_def)
    have "ready_loop p n ?w1 = sr_after p (Suc k') ?w1"
    proof (rule Suc.IH)
      show "k' \<le> n" using Suc.prems(1) Suc by simp
      show "\<forall>j<k'. sr_poll p j ?w1 AND HASH_SR_DCIS \<noteq> HASH_SR_DCIS"
        using Suc.prems(2) Suc shift by auto
      show "k' = n \<or> sr_poll p k' ?w1 AND HASH_SR_DCIS = HASH_SR_DCIS"
        using Suc.prems(3) Suc shift by auto
    qed
    with b0 Suc show ?thesis by (simp add: split_def sr_poll_def)
  qed
qed

lemma sr_after_Suc: "sr_after p (Suc k) w = snd (io_read32 p (sr_after p k w) HASH_SR)"
  by (induction k arbitrary: w) simp_all

text \<open>
  C8, as stated, fails in its last clause. A poll that sees the flag settled only ends
  the loop; the result follows the read made after the loop. With the status register
  answering 0 and then 8 (busy), the first poll of \<open>wait_end_busy\<close> sees the engine
  idle and the call still returns the busy error; with 2 and then 0 the same happens to
  \<open>wait_digest_ready\<close>.
\<close>

theorem wait_settled_poll_counterexample:
  "sr_poll sim_platform 0 (sim_idle\<lparr>sr_script := [0, 8]\<rparr>) AND HASH_SR_BUSY = 0
   \<and> fst (wait_end_busy sim_platform (sim_idle\<lparr>sr_script := [0, 8]\<rparr>)) = TEE_ERROR_BUSY
   \<and> sr_poll sim_platform 0 (sim_idle\<lparr>sr_script := [2, 0]\<rparr>) AND HASH_SR_DCIS = HASH_SR_DCIS
   \<and> fst (wait_digest_ready sim_platform (sim_idle\<lparr>sr_script := [2, 0]\<rparr>)) = TEE_ERROR_BUSY"
  by code_simp

text \<open>
  C8, amended. Both waits compute one deadline at entry (\<open>n\<close> polls pass before it
  has elapsed) and poll the flag until a poll sees it settled or the deadline has
  elapsed: \<open>k\<close> is the index of the poll that ends the loop. They then read the flag
  once more, whichever way the loop ended, and that read alone decides: the busy error
  when it shows the flag unsettled, success when it shows it settled. The call has
  then read the status register \<open>k + 2\<close> times and done nothing else.
\<close>

theorem waits_decided_by_reread:
  assumes "n = timeout_init_us p w HASH_TIMEOUT_US"
  shows "(k \<le> n \<and> (\<forall>j<k. sr_poll p j w AND HASH_SR_BUSY \<noteq> 0)
            \<and> (k = n \<or> sr_poll p k w AND HASH_SR_BUSY = 0) \<longrightarrow>
          wait_end_busy p w =
            (if sr_poll p (Suc k) w AND HASH_SR_BUSY \<noteq> 0 then TEE_ERROR_BUSY else TEE_SUCCESS,
             sr_after p (Suc (Suc k)) w))
       \<and> (k \<le> n \<and> (\<forall>j<k. sr_poll p j w AND HASH_SR_DCIS \<noteq> HASH_SR_DCIS)
            \<and> (k = n \<or> sr_poll p k w AND HASH_SR_DCIS = HASH_SR_DCIS) \<longrightarrow>
          wait_digest_ready p w =
            (if sr_poll p (Suc k) w AND HASH_SR_DCIS \<noteq> HASH_SR_DCIS then TEE_ERROR_BUSY
             else TEE_SUCCESS,
             sr_after p (Suc (Suc k)) w))"
proof (intro conjI impI)
  assume h: "k \<le> n \<and> (\<forall>j<k. sr_poll p j w AND HASH_SR_BUSY \<noteq> 0)
            \<and> (k = n \<or> sr_poll p k w AND HASH_SR_BUSY = 0)"
  then have "busy_loop p n w = sr_after p (Suc k) w"
    by (intro busy_loop_reads) blast+
  then show "wait_end_busy p w =
            (if sr_poll p (Suc k) w AND HASH_SR_BUSY \<noteq> 0 then TEE_ERROR_BUSY else TEE_SUCCESS,
             sr_after p (Suc (Suc k)) w)"
    using assms sr_after_Suc [of p "Suc k" w]
    by (simp add: wait_end_busy_def Let_def split_def sr_poll_def del: sr_after.simps)
next
  assume h: "k \<le> n \<and> (\<forall>j<k. sr_poll p j w AND HASH_SR_DCIS \<noteq> HASH_SR_DCIS)
            \<and> (k = n \<or> sr_poll p k w AND HASH_SR_DCIS = HASH_SR_DCIS)"
  then have "ready_loop p n w = sr_after p (Suc k) w"
    by (intro ready_loop_reads) blast+
  then show "wait_digest_ready p w =
            (if sr_poll p (Suc k) w AND HASH_SR_DCIS \<noteq> HASH_SR_DCIS then TEE_ERROR_BUSY
             else TEE_SUCCESS,
             sr_after p (Suc (Suc k)) w)"
    using assms sr_after_Suc [of p "Suc k" w]
    by (simp add: wait_digest_ready_def Let_def split_def sr_poll_def del: sr_after.simps)
qed

theorem waits_decided_by_reread_witness:
  "wait_end_busy sim_platform (sim_idle\<lparr>sr_script := [8, 8, 8, 0]\<rparr>)
     = (TEE_SUCCESS, sim_idle\<lparr>sr_script := []\<rparr>)
   \<and> wait_digest_ready sim_platform (sim_idle\<lparr>sr_script := [0, 2, 2]\<rparr>)
     = (TEE_SUCCESS, sim_idle\<lparr>sr_script := []\<rparr>)"
proof -
  let ?w = "sim_idle\<lparr>sr_script := [8, 8, 8, 0]\<rparr>"
  let ?v = "sim_idle\<lparr>sr_script := [0, 2, 2]\<rparr>"
  have n: "2 = timeout_init_us sim_platform ?w HASH_TIMEOUT_US"
          "2 = timeout_init_us sim_platform ?v HASH_TIMEOUT_US"
    by (simp_all add: sim_platform_def sim_idle_def)
  have p0: "sr_poll sim_platform 0 ?w AND HASH_SR_BUSY \<noteq> 0"
          "sr_poll sim_platform (Suc 0) ?w AND HASH_SR_BUSY \<noteq> 0"
          "sr_poll sim_platform 0 ?v AND HASH_SR_DCIS \<noteq> HASH_SR_DCIS"
          "sr_poll sim_platform 1 ?v AND HASH_SR_DCIS = HASH_SR_DCIS"
    by code_simp+
  have a: "(2::nat) \<le> 2 \<and> (\<forall>j<2. sr_poll sim_platform j ?w AND HASH_SR_BUSY \<noteq> 0)
            \<and> ((2::nat) = 2 \<or> sr_poll sim_platform 2 ?w AND HASH_SR_BUSY = 0)"
    using p0(1,2) by (auto dest!: less_2_cases)
  have b: "(1::nat) \<le> 2 \<and> (\<forall>j<1. sr_poll sim_platform j ?v AND HASH_SR_DCIS \<noteq> HASH_SR_DCIS)
            \<and> ((1::nat) = 2 \<or> sr_poll sim_platform 1 ?v AND HASH_SR_DCIS = HASH_SR_DCIS)"
    using p0(3,4) by simp
  have c: "sr_poll sim_platform (Suc 2) ?w AND HASH_SR_BUSY = 0"
          "sr_after sim_platform (Suc (Suc 2)) ?w = sim_idle\<lparr>sr_script := []\<rparr>"
          "sr_poll sim_platform (Suc 1) ?v AND HASH_SR_DCIS = HASH_SR_DCIS"
          "sr_after sim_platform (Suc (Suc 1)) ?v = sim_idle\<lparr>sr_script := []\<rparr>"
    by code_simp+
  show ?thesis
    using waits_decided_by_reread [OF n(1), of 2] waits_decided_by_reread [OF n(2), of 1] a b c
    by simp
qed


subsection \<open>The driver on a quiet engine\<close>

text \<open>
  On the simulated engine at rest no wait times out, every word written is recorded,
  and the context can always be saved. The lemmas below follow \<open>restore_context\<close>,
  \<open>save_context\<close>, the two loops of \<open>update\<close>, then \<open>update\<close> and \<open>init\<close>
  themselves, for every well-formed session.
\<close>

lemma sim_ops:
  "io_read32 sim_platform = sim_read" "io_write32 sim_platform = sim_write"
  "timeout_init_us sim_platform w us = budget w"
  "mutex_lock sim_platform w = w\<lparr>locks := Suc (locks w)\<rparr>"
  "mutex_unlock sim_platform w = w" "clk_enable sim_platform w = w"
  "clk_disable sim_platform w = w"
  by (simp_all add: sim_platform_def)

lemma idle_flags:
  "(HASH_SR_DINIS OR HASH_SR_DCIS) AND HASH_SR_BUSY = 0"
  "(HASH_SR_DINIS OR HASH_SR_DCIS) AND HASH_SR_DINIS \<noteq> 0"
  "(HASH_SR_DINIS OR HASH_SR_DCIS) AND HASH_SR_DCIS = HASH_SR_DCIS"
  "HASH_SR_DINIS \<noteq> 0"
  by (simp_all add: HASH_SR_DINIS_def HASH_SR_DCIS_def HASH_SR_BUSY_def BIT_def)

lemma sim_read_sr: "quiet w \<Longrightarrow> sim_read w HASH_SR = (HASH_SR_DINIS OR HASH_SR_DCIS, w)"
  by (simp add: sim_read_def quiet_def)

lemma sim_read_reg: "off \<noteq> HASH_SR \<Longrightarrow> snd (sim_read w off) = w"
  by (simp add: sim_read_def split: option.splits)

lemma sim_write_quiet: "quiet (sim_write w off v) = quiet w"
  by (simp add: sim_write_def quiet_def)

lemma sim_write_din:
  "din (sim_write w off v) = (if off = HASH_DIN then din w @ [v] else din w)"
  by (simp add: sim_write_def)

lemma lock_quiet: "quiet (w\<lparr>locks := n\<rparr>) = quiet w"
  by (simp add: quiet_def)

lemma busy_loop_quiet: "quiet w \<Longrightarrow> busy_loop sim_platform n w = w"
  by (cases n) (simp_all add: sim_ops sim_read_sr idle_flags)

lemma wait_end_busy_quiet: "quiet w \<Longrightarrow> wait_end_busy sim_platform w = (TEE_SUCCESS, w)"
  by (simp add: wait_end_busy_def busy_loop_quiet sim_ops sim_read_sr idle_flags)

lemma hash_write_data_quiet:
  "quiet w \<Longrightarrow> hash_write_data sim_platform w v = (TEE_SUCCESS, sim_write w HASH_DIN v)"
  by (simp add: hash_write_data_def wait_end_busy_quiet sim_ops sim_write_quiet)

lemma csr_offsets: "HASH_CSR x \<noteq> HASH_DIN" "HASH_CSR x \<noteq> HASH_SR"
  "HASH_IMR \<noteq> HASH_DIN" "HASH_STR \<noteq> HASH_DIN" "HASH_CR \<noteq> HASH_DIN"
  "HASH_IMR \<noteq> HASH_SR" "HASH_STR \<noteq> HASH_SR" "HASH_CR \<noteq> HASH_SR"
  by (simp_all add: HASH_CSR_def HASH_DIN_def HASH_SR_def HASH_IMR_def HASH_STR_def HASH_CR_def)

lemma restore_regs_loop_sim:
  "i + src + k \<le> length a \<Longrightarrow>
   \<exists>w'. restore_regs_loop sim_platform k i first src a w = Inr w'
        \<and> quiet w' = quiet w \<and> din w' = din w"
proof (induction k arbitrary: i w)
  case 0
  then show ?case by simp
next
  case (Suc k)
  have "Suc i + src + k \<le> length a" using Suc.prems by simp
  from Suc.IH [OF this, of "sim_write w (HASH_CSR (i + first)) (a ! (i + src))"]
  show ?case using Suc.prems
    by (auto simp: sim_ops sim_write_quiet sim_write_din csr_offsets)
qed

lemma save_regs_loop_sim:
  "i + dst + k \<le> length a \<Longrightarrow>
   \<exists>a'. save_regs_loop sim_platform k i first dst a w = Inr (a', w) \<and> length a' = length a"
proof (induction k arbitrary: i a)
  case 0
  then show ?case by simp
next
  case (Suc k)
  obtain v where r: "sim_read w (HASH_CSR (i + first)) = (v, w)"
    using sim_read_reg [of "HASH_CSR (i + first)" w] csr_offsets(2) [of "i + first"]
    by (metis prod.collapse)
  have "Suc i + dst + k \<le> length (a[i + dst := v])" using Suc.prems by simp
  from Suc.IH [OF this] show ?case using Suc.prems r
    by (auto simp: sim_ops)
qed

lemma restore_context_sim:
  assumes "session_ok c"
  shows "\<exists>w'. restore_context sim_platform c w = Inr (TEE_SUCCESS, w')
              \<and> quiet w' = quiet w \<and> din w' = din w"
proof -
  obtain nb first hnb hfirst where g: "get_save_registers c (0, 0, 0, 0) = (nb, first, hnb, hfirst)"
    by (cases "get_save_registers c (0, 0, 0, 0)") auto
  from assms g obtain b rs where p: "csr c = Ptr b rs" and l: "nb + hnb \<le> length rs"
    by (auto simp: session_ok_def split: ptr.splits)
  let ?w3 = "sim_write (sim_write (sim_write w HASH_IMR (imr c)) HASH_STR (str c)) HASH_CR
               (cr c OR HASH_CR_INIT)"
  have q3: "quiet ?w3 = quiet w" "din ?w3 = din w"
    by (simp_all add: sim_write_quiet sim_write_din csr_offsets)
  from l have "0 + 0 + nb \<le> length rs" by simp
  from restore_regs_loop_sim [OF this, of first ?w3]
  obtain w4 where r4: "restore_regs_loop sim_platform nb 0 first 0 rs ?w3 = Inr w4"
    and q4: "quiet w4 = quiet ?w3" "din w4 = din ?w3" by blast
  from l have "0 + nb + hnb \<le> length rs" by simp
  from restore_regs_loop_sim [OF this, of hfirst w4]
  obtain w5 where r5: "restore_regs_loop sim_platform hnb 0 hfirst nb rs w4 = Inr w5"
    and q5: "quiet w5 = quiet w4" "din w5 = din w4" by blast
  show ?thesis
    unfolding restore_context_def
    using g p r4 r5 q3 q4 q5 by (simp add: sim_ops Let_def)
qed


lemma sz_sub_simple:
  assumes "b \<le> a" and "a < 2 ^ 32"
  shows "sz_sub a b = a - b"
proof -
  have 1: "b mod 2 ^ 32 = b" using assms by simp
  have 2: "a + 2 ^ 32 - b = (a - b) + 2 ^ 32" using assms by linarith
  have 3: "a - b < 2 ^ 32" using assms by linarith
  have "sz_sub a b = (a + 2 ^ 32 - b) mod 2 ^ 32" by (simp only: sz_sub_def 1)
  also have "\<dots> = ((a - b) + 2 ^ 32) mod 2 ^ 32" by (simp only: 2)
  also have "\<dots> = (a - b) mod 2 ^ 32" by (simp only: mod_add_self2)
  also have "\<dots> = a - b" using 3 by (rule mod_less)
  finally show ?thesis .
qed

lemma sz_add_simple: "a + b < 2 ^ 32 \<Longrightarrow> sz_add a b = a + b"
  by (simp add: sz_add_def)

lemma sim_read_plain: "off \<noteq> HASH_SR \<Longrightarrow> \<exists>v. sim_read w off = (v, w)"
  using sim_read_reg [of off w] by (metis prod.collapse)

lemma get_save_registers_cong:
  "save_mode c' = save_mode c \<Longrightarrow> mode c' = mode c
     \<Longrightarrow> get_save_registers c' r = get_save_registers c r"
  by (simp add: get_save_registers_def cong: if_cong)

lemma save_context_sim:
  assumes ok: "session_ok c" and q: "quiet w"
  shows "\<exists>c'. save_context sim_platform c w = Inr (TEE_SUCCESS, c', w) \<and> session_ok c'
              \<and> remain_len c' = remain_len c \<and> queue_size c' = queue_size c
              \<and> block_size c' = block_size c \<and> remain_buf c' = remain_buf c"
proof -
  obtain v1 where r1: "sim_read w HASH_IMR = (v1, w)" using sim_read_plain [OF csr_offsets(6)] by blast
  obtain v2 where r2: "sim_read w HASH_STR = (v2, w)" using sim_read_plain [OF csr_offsets(7)] by blast
  obtain v3 where r3: "sim_read w HASH_CR = (v3, w)" using sim_read_plain [OF csr_offsets(8)] by blast
  let ?c1 = "c\<lparr>imr := v1, str := v2, cr := v3\<rparr>"
  obtain nb first hnb hfirst where g: "get_save_registers c (0, 0, 0, 0) = (nb, first, hnb, hfirst)"
    by (cases "get_save_registers c (0, 0, 0, 0)") auto
  have g1: "get_save_registers ?c1 (0, 0, 0, 0) = (nb, first, hnb, hfirst)"
    using g get_save_registers_cong [of ?c1 c "(0, 0, 0, 0)"] by simp
  from ok g obtain b rs where p: "csr c = Ptr b rs" and l: "nb + hnb \<le> length rs"
    by (auto simp: session_ok_def split: ptr.splits)
  from l have "0 + 0 + nb \<le> length rs" by simp
  from save_regs_loop_sim [OF this, of first w]
  obtain rs1 where s1: "save_regs_loop sim_platform nb 0 first 0 rs w = Inr (rs1, w)"
    and l1: "length rs1 = length rs" by blast
  from l l1 have "0 + nb + hnb \<le> length rs1" by simp
  from save_regs_loop_sim [OF this, of hfirst w]
  obtain rs2 where s2: "save_regs_loop sim_platform hnb 0 hfirst nb rs1 w = Inr (rs2, w)"
    and l2: "length rs2 = length rs1" by blast
  let ?c' = "?c1\<lparr>csr := Ptr b rs2\<rparr>"
  have e: "save_context sim_platform c w = Inr (TEE_SUCCESS, ?c', w)"
    unfolding save_context_def
    using q r1 r2 r3 g1 p s1 s2
    by (simp add: wait_end_busy_quiet sim_ops sim_read_sr idle_flags Let_def)
  have g2: "get_save_registers ?c' (0, 0, 0, 0) = (nb, first, hnb, hfirst)"
    using g get_save_registers_cong [of ?c' c "(0, 0, 0, 0)"] by simp
  have "session_ok ?c'"
    using ok l l1 l2 g2 unfolding session_ok_def by (simp split: ptr.splits)
  with e show ?thesis by auto
qed

lemma zero32_length: "zero32 m i = Some m' \<Longrightarrow> length m' = length m"
  by (auto simp: zero32_def split: if_splits)

lemma memcpy_at_length: "memcpy_at dst off src n = Some m \<Longrightarrow> length m = length dst"
  by (auto simp: memcpy_at_def split: if_splits)

lemma flush_loop_sim:
  "quiet w \<Longrightarrow> 4 * (i + k) \<le> length buf \<Longrightarrow>
   \<exists>buf' w'. flush_loop sim_platform k i buf w = Inr (TEE_SUCCESS, buf', w')
      \<and> length buf' = length buf \<and> quiet w' \<and> length (din w') = length (din w) + k"
proof (induction k arbitrary: i buf w)
  case 0
  then show ?case by simp
next
  case (Suc k)
  from Suc.prems(2) obtain v where lv: "load32 buf (4 * i) = Some v"
    by (auto simp: load32_def)
  from Suc.prems(2) obtain buf1 where z: "zero32 buf i = Some buf1"
    by (auto simp: zero32_def)
  let ?w1 = "sim_write w HASH_DIN v"
  have q1: "quiet ?w1" using Suc.prems(1) by (simp add: sim_write_quiet)
  have "4 * (Suc i + k) \<le> length buf1" using Suc.prems(2) zero32_length [OF z] by simp
  from Suc.IH [OF q1 this]
  obtain buf' w' where f: "flush_loop sim_platform k (Suc i) buf1 ?w1 = Inr (TEE_SUCCESS, buf', w')"
    and l: "length buf' = length buf1" and q': "quiet w'"
    and d: "length (din w') = length (din ?w1) + k" by blast
  show ?case
    using lv z f l q' d zero32_length [OF z] Suc.prems(1)
    by (simp add: hash_write_data_quiet sim_write_din)
qed

lemma feed_rounds_step:
  "4 \<le> qs \<Longrightarrow> qs \<le> len \<Longrightarrow> feed_rounds qs len = Suc (feed_rounds qs (len - 4))"
  by (auto simp: feed_rounds_def)

lemma feed_loop_sim:
  "quiet w \<Longrightarrow> 4 \<le> qs \<Longrightarrow> len \<le> length d \<Longrightarrow> len < 2 ^ 32 \<Longrightarrow> feed_rounds qs len = n \<Longrightarrow>
   \<exists>w'. feed_loop sim_platform qs d len w = Inr (TEE_SUCCESS, drop (4 * n) d, len - 4 * n, w')
      \<and> quiet w' \<and> length (din w') = length (din w) + n"
proof (induction n arbitrary: d len w)
  case 0
  then have "len < qs" by (auto simp: feed_rounds_def split: if_splits)
  then show ?case using "0.prems"(1)
    by (subst feed_loop.simps) (simp add: sim_ops sim_read_sr idle_flags)
next
  case (Suc n)
  from Suc.prems(5) have ge: "qs \<le> len" by (auto simp: feed_rounds_def split: if_splits)
  with Suc.prems(2,3) have "4 \<le> length d" by simp
  then obtain v where lv: "load32 d 0 = Some v" by (auto simp: load32_def)
  let ?w1 = "sim_write w HASH_DIN v"
  have q1: "quiet ?w1" using Suc.prems(1) by (simp add: sim_write_quiet)
  have s: "sz_sub len 4 = len - 4" using ge Suc.prems(2,4) by (simp add: sz_sub_simple)
  have l1: "len - 4 \<le> length (drop 4 d)" using Suc.prems(3) by simp
  have l2: "len - 4 < 2 ^ 32" using Suc.prems(4) by simp
  have r: "feed_rounds qs (len - 4) = n"
    using feed_rounds_step [OF Suc.prems(2) ge] Suc.prems(5) by simp
  from Suc.IH [OF q1 Suc.prems(2) l1 l2 r]
  obtain w' where f: "feed_loop sim_platform qs (drop 4 d) (len - 4) ?w1
                        = Inr (TEE_SUCCESS, drop (4 * n) (drop 4 d), len - 4 - 4 * n, w')"
    and q': "quiet w'" and dd: "length (din w') = length (din ?w1) + n" by blast
  have e: "drop (4 * n) (drop 4 d) = drop (4 * Suc n) d" by (simp add: add.commute)
  show ?case
    using ge lv f q' dd s e Suc.prems(1)
    by (subst feed_loop.simps) (simp add: hash_write_data_quiet sim_write_din)
qed


lemma roundup4:
  assumes "r < 2 ^ 32 - 4"
  shows "ROUNDUP r 4 = (r + 3) div 4 * 4"
proof -
  have "(r + 3) mod 2 ^ 32 = r + 3" using assms by simp
  then show ?thesis by (simp add: ROUNDUP_def)
qed

lemma roundup4_bounds:
  "r \<le> (r + 3) div 4 * 4" "(r + 3) div 4 * 4 < r + 4" "((r + 3) div 4 * 4) mod 4 = (0::nat)"
  by presburger+

lemma roundup4_le: "(r::nat) < m \<Longrightarrow> m mod 4 = 0 \<Longrightarrow> (r + 3) div 4 * 4 \<le> m"
  by presburger

lemma session_ok_pending:
  assumes "session_ok c"
  shows "remain_len c \<noteq> 0 \<Longrightarrow>
           pending_align c = (remain_len c + 3) div 4 * 4 - remain_len c"
    and "remain_len c + pending_align c \<le> block_size c + 4"
    and "(remain_len c + pending_align c) mod 4 = 0"
    and "pending_align c < 4"
    and "remain_len c \<noteq> 0 \<Longrightarrow> sz_add (remain_len c) (pending_align c) = remain_len c + pending_align c"
proof -
  let ?r = "remain_len c"
  let ?R = "(?r + 3) div 4 * 4"
  from assms have b: "?r < block_size c + 4" "block_size c < 2 ^ 32 - 4" "block_size c mod 4 = 0"
    by (simp_all add: session_ok_def)
  have "(n::nat) < m + 4 \<Longrightarrow> m < 4294967292 \<Longrightarrow> m mod 4 = 0 \<Longrightarrow> n < 4294967292" for n m
    by presburger
  from this [of ?r "block_size c"] b have r32: "?r < 2 ^ 32 - 4" by simp
  have ru: "ROUNDUP ?r 4 = ?R" by (rule roundup4 [OF r32])
  have m4: "(block_size c + 4) mod 4 = 0" using b(3) by presburger
  have Rle: "?R \<le> block_size c + 4" by (rule roundup4_le [OF b(1) m4])
  have R32: "?R < 2 ^ 32" using Rle b(2) by simp
  have pa: "?r \<noteq> 0 \<Longrightarrow> pending_align c = ?R - ?r"
    using ru roundup4_bounds(1) [of ?r] R32 by (simp add: pending_align_def sz_sub_simple)
  show "?r \<noteq> 0 \<Longrightarrow> pending_align c = ?R - ?r" by (rule pa)
  have sum: "?r \<noteq> 0 \<Longrightarrow> ?r + pending_align c = ?R"
    using pa roundup4_bounds(1) [of ?r] by simp
  have z: "?r = 0 \<Longrightarrow> pending_align c = 0" by (simp add: pending_align_def)
  show "?r + pending_align c \<le> block_size c + 4"
    using sum z Rle by (cases "?r = 0") simp_all
  show "(?r + pending_align c) mod 4 = 0"
    using sum z roundup4_bounds(3) [of ?r] by (cases "?r = 0") simp_all
  show "pending_align c < 4"
    using pa z roundup4_bounds(2) [of ?r] by (cases "?r = 0") simp_all
  show "?r \<noteq> 0 \<Longrightarrow> sz_add ?r (pending_align c) = ?r + pending_align c"
    using sum R32 by (simp add: sz_add_simple)
qed

lemma session_ok_buf_update:
  assumes "session_ok c" and "remain_buf c = Ptr a buf" and "length buf' = length buf"
      and "n < block_size c + 4"
  shows "session_ok (c\<lparr>remain_buf := Ptr a buf', remain_len := n\<rparr>)"
proof -
  have "get_save_registers (c\<lparr>remain_buf := Ptr a buf', remain_len := n\<rparr>) (0, 0, 0, 0)
          = get_save_registers c (0, 0, 0, 0)"
    by (rule get_save_registers_cong) simp_all
  with assms show ?thesis unfolding session_ok_def by (simp split: ptr.splits)
qed

lemma write_saved_sim:
  assumes ok: "session_ok c" and q: "quiet w" and al: "pending_align c \<le> len"
      and ld: "len \<le> length d" and lb: "len < 2 ^ 32"
  shows "\<exists>c1 w1. write_saved sim_platform c d len w
             = Inr (TEE_SUCCESS, c1, drop (pending_align c) d, len - pending_align c, w1)
           \<and> session_ok c1 \<and> remain_len c1 = 0 \<and> queue_size c1 = queue_size c
           \<and> block_size c1 = block_size c \<and> quiet w1
           \<and> length (din w1) = length (din w) + (remain_len c + pending_align c) div 4"
proof (cases "remain_len c = 0")
  case True
  then have "pending_align c = 0" by (simp add: pending_align_def)
  with True ok q show ?thesis by (simp add: write_saved_def)
next
  case False
  let ?r = "remain_len c"
  let ?al = "pending_align c"
  from ok obtain a buf where p: "remain_buf c = Ptr a buf" and lbuf: "length buf = block_size c + 4"
    by (auto simp: session_ok_def split: ptr.splits)
  note sp = session_ok_pending [OF ok]
  have pa: "sz_sub (ROUNDUP ?r 4) ?r = ?al" using False by (simp add: pending_align_def)
  have "?al \<le> length d" using al ld by simp
  moreover have "?r + ?al \<le> length buf" using sp(2) lbuf by simp
  ultimately obtain buf1 where m: "memcpy_at buf ?r d ?al = Some buf1"
    by (auto simp: memcpy_at_def)
  have l1: "length buf1 = length buf" by (rule memcpy_at_length [OF m])
  have rl: "sz_add ?r ?al = ?r + ?al" by (rule sp(5) [OF False])
  have ls: "sz_sub len ?al = len - ?al" by (rule sz_sub_simple [OF al lb])
  have "4 * ((?r + ?al) div 4) = ?r + ?al" using sp(3) by presburger
  then have "4 * (0 + (?r + ?al) div 4) \<le> length buf1" using sp(2) lbuf l1 by simp
  from flush_loop_sim [OF q this]
  obtain buf2 w1 where f: "flush_loop sim_platform ((?r + ?al) div 4) 0 buf1 w = Inr (TEE_SUCCESS, buf2, w1)"
    and l2: "length buf2 = length buf1" and q1: "quiet w1"
    and d1: "length (din w1) = length (din w) + (?r + ?al) div 4" by blast
  let ?c1 = "c\<lparr>remain_buf := Ptr a buf2, remain_len := 0\<rparr>"
  have ok1: "session_ok ?c1"
    by (rule session_ok_buf_update [OF ok p]) (simp_all add: l1 l2)
  have "write_saved sim_platform c d len w = Inr (TEE_SUCCESS, ?c1, drop ?al d, len - ?al, w1)"
    unfolding write_saved_def using False p pa m rl ls f by (simp add: Let_def)
  with ok1 q1 d1 show ?thesis by auto
qed


lemma session_ok_queue_update:
  assumes "session_ok c" and "n = block_size c \<or> n = block_size c + 4"
  shows "session_ok (c\<lparr>queue_size := n\<rparr>)"
proof -
  have "get_save_registers (c\<lparr>queue_size := n\<rparr>) (0, 0, 0, 0) = get_save_registers c (0, 0, 0, 0)"
    by (rule get_save_registers_cong) simp_all
  with assms show ?thesis unfolding session_ok_def by (simp split: ptr.splits)
qed

lemma session_ok_facts:
  assumes "session_ok c"
  shows "4 \<le> queue_size c" "queue_size c \<le> block_size c + 4" "block_size c + 4 < 2 ^ 32"
    "remain_len c < block_size c + 4"
    "queue_size c = block_size c \<or> queue_size c = block_size c + 4"
  using assms by (auto simp: session_ok_def)

lemma feed_rounds_left: "4 \<le> qs \<Longrightarrow> len - 4 * feed_rounds qs len < qs"
  unfolding feed_rounds_def by (cases "len < qs") (simp, presburger)

lemma update_sim_fast:
  assumes ok: "session_ok c" and q: "quiet w" and l0: "0 < len" and ld: "len \<le> length d"
      and fast: "remain_len c + len < queue_size c"
  shows "\<exists>c' w'. stm32_hash_update sim_platform c (Some d) len w = Inr (TEE_SUCCESS, c', w')
           \<and> session_ok c' \<and> quiet w' \<and> din w' = din w
           \<and> remain_len c' = remain_len c + len \<and> queue_size c' = queue_size c
           \<and> block_size c' = block_size c"
proof -
  note f = session_ok_facts [OF ok]
  let ?w1 = "w\<lparr>locks := Suc (locks w)\<rparr>"
  from restore_context_sim [OF ok, of ?w1]
  obtain w2 where r: "restore_context sim_platform c ?w1 = Inr (TEE_SUCCESS, w2)"
    and q2: "quiet w2" and d2: "din w2 = din w" using q by (auto simp: lock_quiet)
  from ok obtain a buf where p: "remain_buf c = Ptr a buf" and lbuf: "length buf = block_size c + 4"
    by (auto simp: session_ok_def split: ptr.splits)
  have sa: "sz_add (remain_len c) len = remain_len c + len"
    using fast f by (simp add: sz_add_simple)
  have "remain_len c + len \<le> length buf" using fast f lbuf by simp
  with ld obtain buf1 where m: "memcpy_at buf (remain_len c) d len = Some buf1"
    by (auto simp: memcpy_at_def)
  let ?c' = "c\<lparr>remain_buf := Ptr a buf1, remain_len := remain_len c + len\<rparr>"
  have ok': "session_ok ?c'"
    by (rule session_ok_buf_update [OF ok p memcpy_at_length [OF m]]) (use fast f in simp)
  have "stm32_hash_update sim_platform c (Some d) len w = Inr (TEE_SUCCESS, ?c', w2)"
    unfolding stm32_hash_update_def leave_def
    using l0 r sa fast p m by (simp add: sim_ops extent_def Let_def)
  with ok' q2 d2 show ?thesis by auto
qed

lemma update_sim_fault:
  assumes ok: "session_ok c" and q: "quiet w" and l0: "0 < len" and ld: "length d = len"
      and slow: "queue_size c \<le> remain_len c + len" and short: "len < pending_align c"
  shows "stm32_hash_update sim_platform c (Some d) len w = Inl OutOfBounds"
proof -
  note f = session_ok_facts [OF ok]
  note sp = session_ok_pending [OF ok]
  have r0: "remain_len c \<noteq> 0" using short by (auto simp: pending_align_def split: if_splits)
  let ?w1 = "w\<lparr>locks := Suc (locks w)\<rparr>"
  from restore_context_sim [OF ok, of ?w1]
  obtain w2 where r: "restore_context sim_platform c ?w1 = Inr (TEE_SUCCESS, w2)" by blast
  from ok obtain a buf where p: "remain_buf c = Ptr a buf"
    by (auto simp: session_ok_def split: ptr.splits)
  have "remain_len c + len < 2 ^ 32" using f sp(2) short by simp
  then have sa: "sz_add (remain_len c) len = remain_len c + len" by (rule sz_add_simple)
  have pa: "sz_sub (ROUNDUP (remain_len c) 4) (remain_len c) = pending_align c"
    using r0 by (simp add: pending_align_def)
  have m: "memcpy_at buf (remain_len c) d (pending_align c) = None"
    using short ld by (simp add: memcpy_at_def)
  have ws: "write_saved sim_platform c d len w2 = Inl OutOfBounds"
    unfolding write_saved_def using r0 p pa m by (simp add: Let_def)
  show ?thesis
    unfolding stm32_hash_update_def
    using l0 r sa slow ws by (simp add: sim_ops extent_def Let_def)
qed


lemma update_sim_slow:
  assumes ok: "session_ok c" and q: "quiet w" and l0: "0 < len" and ld: "len \<le> length d"
      and lb: "remain_len c + len < 2 ^ 32"
      and slow: "queue_size c \<le> remain_len c + len" and al: "pending_align c \<le> len"
  shows "\<exists>c' w'. stm32_hash_update sim_platform c (Some d) len w = Inr (TEE_SUCCESS, c', w')
           \<and> session_ok c' \<and> quiet w' \<and> block_size c' = block_size c
           \<and> remain_len c' =
                 len - pending_align c - 4 * feed_rounds (queue_size c) (len - pending_align c)
           \<and> queue_size c' =
                 (if queue_size c \<le> len - pending_align c then block_size c else queue_size c)
           \<and> length (din w') =
                 length (din w) + (remain_len c + pending_align c) div 4
                   + feed_rounds (queue_size c) (len - pending_align c)"
proof -
  note f = session_ok_facts [OF ok]
  let ?w1 = "w\<lparr>locks := Suc (locks w)\<rparr>"
  define len1 where "len1 = len - pending_align c"
  define d1 where "d1 = drop (pending_align c) d"
  define n where "n = feed_rounds (queue_size c) len1"
  define len2 where "len2 = len1 - 4 * n"
  define d2 where "d2 = drop (4 * n) d1"
  define nxt where "nxt = (if queue_size c \<le> len1 then block_size c else queue_size c)"
  from restore_context_sim [OF ok, of ?w1]
  obtain w2 where r: "restore_context sim_platform c ?w1 = Inr (TEE_SUCCESS, w2)"
    and q2: "quiet w2" and d2w: "din w2 = din w" using q by (auto simp: lock_quiet)
  have l32: "len < 2 ^ 32" using lb by simp
  have sa: "sz_add (remain_len c) len = remain_len c + len" using lb by (rule sz_add_simple)
  from write_saved_sim [OF ok q2 al ld l32]
  obtain c1 w3 where ws: "write_saved sim_platform c d len w2 = Inr (TEE_SUCCESS, c1, d1, len1, w3)"
    and ok1: "session_ok c1" and r1: "remain_len c1 = 0" and qs1: "queue_size c1 = queue_size c"
    and bs1: "block_size c1 = block_size c" and q3: "quiet w3"
    and d3: "length (din w3) = length (din w2) + (remain_len c + pending_align c) div 4"
    unfolding len1_def d1_def by blast
  have ld1: "len1 \<le> length d1" using ld by (simp add: len1_def d1_def)
  have l1b: "len1 < 2 ^ 32" using l32 by (simp add: len1_def)
  from feed_loop_sim [OF q3 f(1) ld1 l1b n_def [symmetric]]
  obtain w4 where fl: "feed_loop sim_platform (queue_size c) d1 len1 w3 = Inr (TEE_SUCCESS, d2, len2, w4)"
    and q4: "quiet w4" and d4: "length (din w4) = length (din w3) + n"
    unfolding len2_def d2_def by blast
  have nx: "(if queue_size c \<le> len1 then block_size c else queue_size c) = nxt"
    by (simp add: nxt_def)
  let ?c2 = "c1\<lparr>queue_size := nxt\<rparr>"
  have ok2: "session_ok ?c2"
    by (rule session_ok_queue_update [OF ok1]) (use f bs1 in \<open>auto simp: nxt_def\<close>)
  have lt: "len2 < queue_size c" unfolding len2_def n_def by (rule feed_rounds_left [OF f(1)])
  from ok2 obtain a buf where p: "remain_buf c1 = Ptr a buf"
    and lbuf: "length buf = block_size c + 4"
    using bs1 by (auto simp: session_ok_def split: ptr.splits)
  have dn: "length (din w4) = length (din w) + (remain_len c + pending_align c) div 4 + n"
    using d2w d3 d4 by simp
  have "\<exists>c4. stm32_hash_update sim_platform c (Some d) len w = Inr (TEE_SUCCESS, c4, w4)
           \<and> session_ok c4 \<and> remain_len c4 = len2 \<and> queue_size c4 = nxt
           \<and> block_size c4 = block_size c"
  proof (cases "len2 = 0")
    case True
    from save_context_sim [OF ok2 q4]
    obtain c4 where sc: "save_context sim_platform ?c2 w4 = Inr (TEE_SUCCESS, c4, w4)"
      and ok4: "session_ok c4" and r4: "remain_len c4 = remain_len ?c2"
      and qs4: "queue_size c4 = queue_size ?c2" and bs4: "block_size c4 = block_size ?c2" by blast
    have "stm32_hash_update sim_platform c (Some d) len w = Inr (TEE_SUCCESS, c4, w4)"
      unfolding stm32_hash_update_def leave_def
      using l0 r sa slow ws qs1 bs1 fl True sc
      by (cases "queue_size c \<le> len1") (simp_all add: nxt_def sim_ops extent_def Let_def)
    with ok4 r4 qs4 bs4 r1 bs1 True show ?thesis by auto
  next
    case False
    have "len2 \<le> length d2" using ld1 by (simp add: len2_def d2_def)
    moreover have "0 + len2 \<le> length buf" using lt f lbuf by simp
    ultimately obtain buf1 where m: "memcpy_at buf 0 d2 len2 = Some buf1"
      by (auto simp: memcpy_at_def)
    let ?c3 = "?c2\<lparr>remain_buf := Ptr a buf1, remain_len := len2\<rparr>"
    have p2: "remain_buf ?c2 = Ptr a buf" using p by simp
    have ok3: "session_ok ?c3"
      by (rule session_ok_buf_update [OF ok2 p2 memcpy_at_length [OF m]]) (use lt f bs1 in simp)
    from save_context_sim [OF ok3 q4]
    obtain c4 where sc: "save_context sim_platform ?c3 w4 = Inr (TEE_SUCCESS, c4, w4)"
      and ok4: "session_ok c4" and r4: "remain_len c4 = remain_len ?c3"
      and qs4: "queue_size c4 = queue_size ?c3" and bs4: "block_size c4 = block_size ?c3" by blast
    have "stm32_hash_update sim_platform c (Some d) len w = Inr (TEE_SUCCESS, c4, w4)"
      unfolding stm32_hash_update_def leave_def
      using l0 r sa slow ws qs1 bs1 fl False p m sc
      by (cases "queue_size c \<le> len1") (simp_all add: nxt_def sim_ops extent_def Let_def)
    with ok4 r4 qs4 bs4 bs1 show ?thesis by auto
  qed
  then obtain c4 where u: "stm32_hash_update sim_platform c (Some d) len w = Inr (TEE_SUCCESS, c4, w4)"
    and ok4: "session_ok c4" and r4: "remain_len c4 = len2" and qs4: "queue_size c4 = nxt"
    and bs4: "block_size c4 = block_size c" by blast
  show ?thesis
    using u ok4 q4 bs4 r4 qs4 dn
    unfolding len2_def nxt_def n_def len1_def
    by (intro exI [of _ c4] exI [of _ w4]) simp
qed

lemma algo_cr_bits_cong:
  "algo c' = algo c \<Longrightarrow> dev_caps c' = dev_caps c \<Longrightarrow> algo_cr_bits c' = algo_cr_bits c"
  by (simp add: algo_cr_bits_def split: stm32_hash_algo.splits)

lemma init_sim:
  assumes md: "mode c = STM32_HASH_MODE" and al: "algo_cr_bits c \<noteq> None" and q: "quiet w"
      and ok: "session_ok (c\<lparr>remain_len := 0, queue_size := block_size c + 4\<rparr>)"
  shows "\<exists>c' w'. stm32_hash_init sim_platform c key klen w = Inr (TEE_SUCCESS, c', w')
           \<and> session_ok c' \<and> quiet w' \<and> din w' = din w \<and> remain_len c' = 0
           \<and> queue_size c' = block_size c + 4 \<and> block_size c' = block_size c"
proof -
  let ?c1 = "c\<lparr>remain_len := 0, queue_size := block_size c + 4\<rparr>"
  let ?w1 = "w\<lparr>locks := Suc (locks w)\<rparr>"
  note f = session_ok_facts [OF ok]
  have sa: "sz_add (block_size c) 4 = block_size c + 4" using f by (simp add: sz_add_simple)
  from ok obtain a buf where p: "remain_buf ?c1 = Ptr a buf" and lbuf: "length buf = block_size c + 4"
    by (auto simp: session_ok_def split: ptr.splits)
  obtain buf1 where ms: "memset0 buf (block_size c + 4) = Some buf1" and l1: "length buf1 = length buf"
    using lbuf by (auto simp: memset0_def)
  let ?c2 = "?c1\<lparr>remain_buf := Ptr a buf1\<rparr>"
  have "session_ok (?c1\<lparr>remain_buf := Ptr a buf1, remain_len := 0\<rparr>)"
    by (rule session_ok_buf_update [OF ok p l1]) simp
  moreover have "?c1\<lparr>remain_buf := Ptr a buf1, remain_len := 0\<rparr> = ?c2"
    by (cases c) simp
  ultimately have ok2: "session_ok ?c2" by (simp only:)
  have "algo_cr_bits ?c2 = algo_cr_bits c" by (rule algo_cr_bits_cong) simp_all
  with al obtain bits where ab: "algo_cr_bits ?c2 = Some bits" by auto
  let ?w2 = "sim_write ?w1 HASH_CR (HASH_CR_INIT OR HASH_CR_DATATYPE_BYTE OR bits)"
  have hi: "hw_init sim_platform ?c2 key klen ?w1 = Inr (TEE_SUCCESS, ?w2)"
    unfolding hw_init_def using ab md by (simp add: sim_ops Let_def)
  have q2: "quiet ?w2" using q by (simp add: sim_write_quiet lock_quiet)
  have d2: "din ?w2 = din w" by (simp add: sim_write_din csr_offsets)
  from save_context_sim [OF ok2 q2]
  obtain c3 where sc: "save_context sim_platform ?c2 ?w2 = Inr (TEE_SUCCESS, c3, ?w2)"
    and ok3: "session_ok c3" and r3: "remain_len c3 = remain_len ?c2"
    and qs3: "queue_size c3 = queue_size ?c2" and bs3: "block_size c3 = block_size ?c2" by blast
  have "stm32_hash_init sim_platform c key klen w = Inr (TEE_SUCCESS, c3, ?w2)"
    unfolding stm32_hash_init_def leave_def
    using md sa p ms hi sc by (simp add: sim_ops Let_def)
  with ok3 q2 d2 r3 qs3 bs3 show ?thesis by auto
qed


lemma sha256_session_fields:
  "mode (sha256_session md) = md"
  "algo (sha256_session md) = STM32_HASH_SHA256"
  "block_size (sha256_session md) = 64"
  "save_mode (sha256_session md) = SAVE_SMALL"
  "remain_buf (sha256_session md) = Ptr 1 (replicate 68 0)"
  "md = STM32_HASH_MODE \<Longrightarrow> csr (sha256_session md) = Ptr 2 (replicate 22 0)"
  by (simp_all add: sha256_session_def stm32_hash_alloc_def algo_params_def calloc_def
        empty_heap_def blank_context_def get_save_registers_def Let_def CAPS_SHA2_256_def BIT_def
        SAVE_SMALL_def SAVE_BIG_def SAVE_SHA3_def SAVE_SMALL_NB_REG_def SAVE_SMALL_FIRST_REG_def)

lemma sha256_session_ok:
  "session_ok (sha256_session STM32_HASH_MODE\<lparr>remain_len := 0,
                 queue_size := block_size (sha256_session STM32_HASH_MODE) + 4\<rparr>)"
proof -
  let ?S = "sha256_session STM32_HASH_MODE"
  have "get_save_registers (?S\<lparr>remain_len := 0, queue_size := block_size ?S + 4\<rparr>) (0, 0, 0, 0)
          = (22, 0, 0, 0)"
    by (simp add: get_save_registers_def sha256_session_fields SAVE_SMALL_def SAVE_BIG_def
          SAVE_SHA3_def SAVE_SMALL_NB_REG_def SAVE_SMALL_FIRST_REG_def)
  then show ?thesis
    by (simp add: session_ok_def sha256_session_fields)
qed

lemma sim_idle_quiet: "quiet sim_idle" "din sim_idle = []"
  by (simp_all add: quiet_def sim_idle_def)

lemma sha256_init_sim:
  "\<exists>c w. stm32_hash_init sim_platform (sha256_session STM32_HASH_MODE) None 0 sim_idle
            = Inr (TEE_SUCCESS, c, w)
         \<and> session_ok c \<and> quiet w \<and> din w = [] \<and> remain_len c = 0 \<and> queue_size c = 68
         \<and> block_size c = 64"
proof -
  let ?S = "sha256_session STM32_HASH_MODE"
  have a: "algo_cr_bits ?S \<noteq> None" by (simp add: algo_cr_bits_def sha256_session_fields)
  from init_sim [OF sha256_session_fields(1) a sim_idle_quiet(1) sha256_session_ok, of None 0]
  show ?thesis by (simp add: sha256_session_fields sim_idle_quiet)
qed

lemma pending_align_value:
  "session_ok c \<Longrightarrow> remain_len c = 67 \<Longrightarrow> pending_align c = 1"
  "session_ok c \<Longrightarrow> remain_len c = 65 \<Longrightarrow> pending_align c = 3"
  "remain_len c = 0 \<Longrightarrow> pending_align c = 0"
  using session_ok_pending(1) [of c] by (simp_all add: pending_align_def)

subsection \<open>The threshold\<close>

text \<open>
  C3. The threshold is meant to drop to \<open>block_size\<close> once the queue has been
  filled for the first time: the driver says so where it sizes the pending buffer
  ("the queue size is block\_size + one register at first then block\_size") and where
  it computes the next threshold ("we will fill the queue for the first time, now queue
  flush will happen exactly after block\_size bytes"). The code does not do that on the
  run below. A SHA-256 session is initialised and given 67 bytes, which stay pending;
  the next update brings one byte. That call is the first of the session to write to
  the FIFO, it writes 17 words (the whole first queue, \<open>block_size + 4\<close> bytes), it
  succeeds, and it leaves the threshold at 68 = \<open>block_size + 4\<close>: the test that
  lowers the threshold looks only at what is left of the caller's data after the
  pending bytes were aligned, and that is nothing here.
\<close>

theorem first_fill_keeps_threshold:
  "(case run_calls sim_platform (sha256_session STM32_HASH_MODE) sim_idle
           [Init None 0, Update (Some (replicate 67 1)) 67] of
      Some (c1, w1) \<Rightarrow>
        (case stm32_hash_update sim_platform c1 (Some [1]) 1 w1 of
           Inr (r, c2, w2) \<Rightarrow>
             r = TEE_SUCCESS \<and> din w1 = [] \<and> length (din w2) = 17 \<and> remain_len c2 = 0
             \<and> block_size c2 = 64 \<and> queue_size c2 = 68
         | Inl f \<Rightarrow> False)
    | None \<Rightarrow> False)"
proof -
  let ?S = "sha256_session STM32_HASH_MODE"
  from sha256_init_sim obtain c0 w0
    where i: "stm32_hash_init sim_platform ?S None 0 sim_idle = Inr (TEE_SUCCESS, c0, w0)"
      and ok0: "session_ok c0" and q0: "quiet w0" and d0: "din w0 = []"
      and r0: "remain_len c0 = 0" and qs0: "queue_size c0 = 68" and bs0: "block_size c0 = 64"
    by blast
  have "remain_len c0 + 67 < queue_size c0" using r0 qs0 by simp
  from update_sim_fast [OF ok0 q0 _ _ this, of "replicate 67 1"]
  obtain c1 w1
    where u1: "stm32_hash_update sim_platform c0 (Some (replicate 67 1)) 67 w0 = Inr (TEE_SUCCESS, c1, w1)"
      and ok1: "session_ok c1" and q1: "quiet w1" and d1: "din w1 = []"
      and r1: "remain_len c1 = 67" and qs1: "queue_size c1 = 68" and bs1: "block_size c1 = 64"
    using d0 r0 qs0 bs0 by auto
  have pa: "pending_align c1 = 1" by (rule pending_align_value(1) [OF ok1 r1])
  have fr: "feed_rounds 68 0 = 0" by (simp add: feed_rounds_def)
  from update_sim_slow [OF ok1 q1, of 1 "[1]"]
  obtain c2 w2
    where u2: "stm32_hash_update sim_platform c1 (Some [1]) 1 w1 = Inr (TEE_SUCCESS, c2, w2)"
      and r2: "remain_len c2 = 0" and qs2: "queue_size c2 = 68" and bs2: "block_size c2 = 64"
      and d2: "length (din w2) = 17"
    using pa r1 qs1 bs1 d1 fr by auto
  have run: "run_calls sim_platform ?S sim_idle [Init None 0, Update (Some (replicate 67 1)) 67]
               = Some (c1, w1)"
    using i u1 by (simp add: do_call_def)
  show ?thesis using run u2 d1 d2 r2 bs2 qs2 by simp
qed

text \<open>
  What the code does with the threshold, on every platform. After a successful
  \<open>init\<close> it is \<open>block_size + 4\<close>. A successful \<open>update\<close> leaves the block size
  alone and sets the threshold to \<open>block_size\<close> exactly when it takes the flushing
  path and the length left once the pending bytes have been aligned and written still
  reaches the threshold; otherwise the threshold is unchanged. Once the threshold equals
  \<open>block_size\<close> it stays there through every later update.
\<close>

lemma threshold_guard:
  "(stm32_hash_init p c key klen w = Inr (TEE_SUCCESS, c', w') \<longrightarrow>
      queue_size c' = sz_add (block_size c') 4)
   \<and> (stm32_hash_update p c buffer len w = Inr (TEE_SUCCESS, c', w') \<and> len < 2 ^ 32 \<longrightarrow>
        block_size c' = block_size c
        \<and> queue_size c' =
            (if len \<noteq> 0 \<and> buffer \<noteq> None \<and> queue_size c \<le> sz_add (remain_len c) len
                \<and> queue_size c \<le> sz_sub len (pending_align c)
             then block_size c else queue_size c))
   \<and> (queue_size c = block_size c \<and> stm32_hash_update p c buffer len w = Inr (r, c', w') \<longrightarrow>
        queue_size c' = block_size c')
   \<and> (queue_size c = block_size c \<and> (\<forall>x\<in>set cs. \<exists>b l. x = Update b l)
        \<and> run_calls p c w cs = Some (c', w') \<longrightarrow> queue_size c' = block_size c')"
proof (intro conjI impI)
  assume i: "stm32_hash_init p c key klen w = Inr (TEE_SUCCESS, c', w')"
  then have "\<not> ((key = None \<or> klen = 0) \<and> mode c \<noteq> STM32_HASH_MODE)"
    by (rule init_success_past_check)
  from init_proceeds [OF this i] show "queue_size c' = sz_add (block_size c') 4"
    by (simp add: same_class_def)
next
  assume u: "stm32_hash_update p c buffer len w = Inr (TEE_SUCCESS, c', w') \<and> len < 2 ^ 32"
  with update_effect [of p c buffer len w TEE_SUCCESS c' w']
  show "block_size c' = block_size c" by (simp add: same_class_def)
  from u update_effect [of p c buffer len w TEE_SUCCESS c' w']
  show "queue_size c' =
            (if len \<noteq> 0 \<and> buffer \<noteq> None \<and> queue_size c \<le> sz_add (remain_len c) len
                \<and> queue_size c \<le> sz_sub len (pending_align c)
             then block_size c else queue_size c)" by blast
next
  assume a: "queue_size c = block_size c \<and> stm32_hash_update p c buffer len w = Inr (r, c', w')"
  from a have u: "stm32_hash_update p c buffer len w = Inr (r, c', w')" by simp
  from a have q: "queue_size c = block_size c" by simp
  show "queue_size c' = block_size c'" by (rule update_threshold_stays [OF u q])
next
  assume a: "queue_size c = block_size c \<and> (\<forall>x\<in>set cs. \<exists>b l. x = Update b l)
        \<and> run_calls p c w cs = Some (c', w')"
  from a have q: "queue_size c = block_size c" by simp
  from a have u: "\<forall>x\<in>set cs. \<exists>b l. x = Update b l" by simp
  from a have r: "run_calls p c w cs = Some (c', w')" by simp
  show "queue_size c' = block_size c'" by (rule updates_threshold_stay [OF q u r])
qed

subsection \<open>Pending bytes and the threshold\<close>

lemma init_establishes_inv:
  assumes "block_size c < 2 ^ 32 - 4"
      and "stm32_hash_init p c key klen w = Inr (TEE_SUCCESS, c', w')"
  shows "session_inv c'"
proof -
  from assms(2) have "\<not> ((key = None \<or> klen = 0) \<and> mode c \<noteq> STM32_HASH_MODE)"
    by (rule init_success_past_check)
  from init_proceeds [OF this assms(2)] assms(1) show ?thesis
    by (auto simp: session_inv_def same_class_def sz_add_def)
qed

lemma update_keeps_inv:
  assumes "session_inv c" and "stm32_hash_update p c buffer len w = Inr (TEE_SUCCESS, c', w')"
  shows "session_inv c'"
proof (cases "len = 0 \<or> buffer = None")
  case True
  with assms show ?thesis by (auto simp: stm32_hash_update_def)
next
  case False
  with update_effect [OF assms(2)] assms(1) show ?thesis
    by (auto simp: session_inv_def same_class_def)
qed

lemma call_keeps_inv:
  assumes "session_inv c" and "do_call p c w x = Inr (TEE_SUCCESS, c', w')"
  shows "session_inv c'"
proof (cases x)
  case (Init key klen)
  with assms show ?thesis
    using init_establishes_inv [of c p key klen w c' w']
    by (simp add: do_call_def session_inv_def)
next
  case (Update b l)
  with assms show ?thesis using update_keeps_inv by (simp add: do_call_def)
qed

lemma run_keeps_inv:
  "session_inv c \<Longrightarrow> run_calls p c w cs = Some (c', w') \<Longrightarrow> session_inv c'"
proof (induction cs arbitrary: c w)
  case Nil
  then show ?case by simp
next
  case (Cons x cs)
  from Cons.prems(2) obtain c1 w1
    where u: "do_call p c w x = Inr (TEE_SUCCESS, c1, w1)"
      and r: "run_calls p c1 w1 cs = Some (c', w')"
    by (auto split: sum.splits TEE_Result.splits)
  from call_keeps_inv [OF Cons.prems(1) u] Cons.IH r show ?case by blast
qed

lemma pending_below_capacity:
  "(stm32_hash_update p c buffer len w = Inr (TEE_SUCCESS, c', w') \<and> len \<noteq> 0 \<and> buffer \<noteq> None
      \<longrightarrow> remain_len c' < queue_size c)
   \<and> (block_size c < 2 ^ 32 - 4 \<and> run_calls p c w (Init key klen # cs) = Some (c', w')
      \<longrightarrow> remain_len c' < block_size c' + 4
          \<and> (queue_size c' = block_size c' \<or> queue_size c' = block_size c' + 4))"
proof (intro conjI impI)
  assume "stm32_hash_update p c buffer len w = Inr (TEE_SUCCESS, c', w') \<and> len \<noteq> 0 \<and> buffer \<noteq> None"
  with update_effect [of p c buffer len w TEE_SUCCESS c' w']
  show "remain_len c' < queue_size c" by blast
next
  assume a: "block_size c < 2 ^ 32 - 4 \<and> run_calls p c w (Init key klen # cs) = Some (c', w')"
  then obtain c1 w1
    where i: "stm32_hash_init p c key klen w = Inr (TEE_SUCCESS, c1, w1)"
      and r: "run_calls p c1 w1 cs = Some (c', w')"
    by (auto simp: do_call_def split: sum.splits TEE_Result.splits)
  from a have b: "block_size c < 2 ^ 32 - 4" by simp
  have "session_inv c1" by (rule init_establishes_inv [OF b i])
  then have "session_inv c'" using r by (rule run_keeps_inv)
  then show "remain_len c' < block_size c' + 4"
    "queue_size c' = block_size c' \<or> queue_size c' = block_size c' + 4"
    by (simp_all add: session_inv_def)
qed


text \<open>
  C6. The invariant is the one the driver relies on, and the code breaks it when it
  lowers the threshold: a SHA-256 session initialised and given 133 bytes in one update
  writes 17 words while 68 or more bytes are left, stops with 65 bytes left because
  \<open>65 < 68\<close>, stores them as pending and then sets the threshold to 64. At rest the
  pending length (65) is not below the threshold (64).
\<close>

theorem pending_overtakes_threshold:
  "(case run_calls sim_platform (sha256_session STM32_HASH_MODE) sim_idle
           [Init None 0, Update (Some (replicate 133 1)) 133] of
      Some (c, w) \<Rightarrow> remain_len c = 65 \<and> queue_size c = 64 \<and> block_size c = 64
    | None \<Rightarrow> False)"
proof -
  let ?S = "sha256_session STM32_HASH_MODE"
  from sha256_init_sim obtain c0 w0
    where i: "stm32_hash_init sim_platform ?S None 0 sim_idle = Inr (TEE_SUCCESS, c0, w0)"
      and ok0: "session_ok c0" and q0: "quiet w0"
      and r0: "remain_len c0 = 0" and qs0: "queue_size c0 = 68" and bs0: "block_size c0 = 64"
    by blast
  have pa: "pending_align c0 = 0" by (rule pending_align_value(3) [OF r0])
  have fr: "feed_rounds 68 133 = 17" by (simp add: feed_rounds_def)
  from update_sim_slow [OF ok0 q0, of 133 "replicate 133 1"]
  obtain c1 w1
    where u1: "stm32_hash_update sim_platform c0 (Some (replicate 133 1)) 133 w0 = Inr (TEE_SUCCESS, c1, w1)"
      and r1: "remain_len c1 = 65" and qs1: "queue_size c1 = 64" and bs1: "block_size c1 = 64"
    using pa r0 qs0 bs0 fr by auto
  have "run_calls sim_platform ?S sim_idle [Init None 0, Update (Some (replicate 133 1)) 133]
               = Some (c1, w1)"
    using i u1 by (simp add: do_call_def)
  then show ?thesis using r1 qs1 bs1 by simp
qed

subsection \<open>Chunking\<close>

text \<open>
  C2. The same 134 bytes, once as one update and once as 133 bytes followed by 1 byte.
  The single update succeeds (17 words written, 66 bytes pending). In the split run the
  first update leaves 65 bytes pending under a threshold of 64; the second finds
  \<open>65 + 1 \<ge> 64\<close>, computes \<open>align = 3\<close> and copies three bytes from the caller's
  one-byte buffer: a read outside the buffer (and \<open>len -= align\<close> wraps around), so
  the split run has no defined digest.
\<close>

theorem chunked_update_out_of_bounds:
  "(case run_calls sim_platform (sha256_session STM32_HASH_MODE) sim_idle
           [Init None 0, Update (Some (replicate 133 1)) 133] of
      Some (c, w) \<Rightarrow> stm32_hash_update sim_platform c (Some [1]) 1 w = Inl OutOfBounds
    | None \<Rightarrow> False)
   \<and> (case run_calls sim_platform (sha256_session STM32_HASH_MODE) sim_idle
           [Init None 0, Update (Some (replicate 134 1)) 134] of
      Some (c, w) \<Rightarrow> remain_len c = 66 \<and> length (din w) = 17
    | None \<Rightarrow> False)"
proof -
  let ?S = "sha256_session STM32_HASH_MODE"
  from sha256_init_sim obtain c0 w0
    where i: "stm32_hash_init sim_platform ?S None 0 sim_idle = Inr (TEE_SUCCESS, c0, w0)"
      and ok0: "session_ok c0" and q0: "quiet w0" and d0: "din w0 = []"
      and r0: "remain_len c0 = 0" and qs0: "queue_size c0 = 68" and bs0: "block_size c0 = 64"
    by blast
  have pa: "pending_align c0 = 0" by (rule pending_align_value(3) [OF r0])
  have fr: "feed_rounds 68 133 = 17" "feed_rounds 68 134 = 17" by (simp_all add: feed_rounds_def)
  from update_sim_slow [OF ok0 q0, of 133 "replicate 133 1"]
  obtain c1 w1
    where u1: "stm32_hash_update sim_platform c0 (Some (replicate 133 1)) 133 w0 = Inr (TEE_SUCCESS, c1, w1)"
      and ok1: "session_ok c1" and q1: "quiet w1"
      and r1: "remain_len c1 = 65" and qs1: "queue_size c1 = 64"
    using pa r0 qs0 bs0 fr by auto
  have pa1: "pending_align c1 = 3" by (rule pending_align_value(2) [OF ok1 r1])
  have f: "stm32_hash_update sim_platform c1 (Some [1]) 1 w1 = Inl OutOfBounds"
    by (rule update_sim_fault [OF ok1 q1]) (simp_all add: r1 qs1 pa1)
  have run1: "run_calls sim_platform ?S sim_idle [Init None 0, Update (Some (replicate 133 1)) 133]
               = Some (c1, w1)"
    using i u1 by (simp add: do_call_def)
  from update_sim_slow [OF ok0 q0, of 134 "replicate 134 1"]
  obtain c2 w2
    where u2: "stm32_hash_update sim_platform c0 (Some (replicate 134 1)) 134 w0 = Inr (TEE_SUCCESS, c2, w2)"
      and r2: "remain_len c2 = 66" and d2: "length (din w2) = 17"
    using pa r0 qs0 bs0 fr d0 by auto
  have run2: "run_calls sim_platform ?S sim_idle [Init None 0, Update (Some (replicate 134 1)) 134]
               = Some (c2, w2)"
    using i u2 by (simp add: do_call_def)
  show ?thesis using run1 f run2 r2 d2 by simp
qed

subsection \<open>The condition of the word loop\<close>

lemma feed_loop_exit:
  "feed_loop p qs d len w = Inr (TEE_SUCCESS, d', len', w') \<Longrightarrow>
     len' < qs
     \<and> (\<exists>w0 sr. io_read32 p w0 HASH_SR = (sr, w') \<and> sr AND HASH_SR_DINIS \<noteq> 0)
     \<and> (\<exists>k. d' = drop (4 * k) d \<and> 4 * k \<le> length d)"
proof (induction p qs d len w rule: feed_loop.induct)
  case (1 p qs d len w)
  show ?case
  proof (cases "qs \<le> len \<or> fst (io_read32 p w HASH_SR) AND HASH_SR_DINIS = 0")
    case False
    with "1.prems" have "len' = len" "d' = d" "w' = snd (io_read32 p w HASH_SR)"
      by (subst (asm) feed_loop.simps, simp add: split_def Let_def)+
    with False show ?thesis
      by (intro conjI exI [of _ w] exI [of _ "fst (io_read32 p w HASH_SR)"] exI [of _ 0]) auto
  next
    case True
    define w1 where "w1 = (if qs \<le> len then w else snd (io_read32 p w HASH_SR))"
    from True "1.prems" obtain v where lv: "load32 d 0 = Some v"
      by (subst (asm) feed_loop.simps) (auto simp: split_def Let_def split: option.splits if_splits)
    then have l4: "4 \<le> length d" by (auto simp: load32_def split: if_splits)
    obtain res w2 where hw: "hash_write_data p w1 v = (res, w2)" by (cases "hash_write_data p w1 v")
    from True "1.prems" lv hw have res: "res = TEE_SUCCESS"
      and rec: "feed_loop p qs (drop 4 d) (sz_sub len 4) w2 = Inr (TEE_SUCCESS, d', len', w')"
      by (subst (asm) feed_loop.simps,
          auto simp: split_def Let_def w1_def split: option.splits if_splits)+
    have go: "(if qs \<le> len then (True, w)
               else (let (sr, w0) = io_read32 p w HASH_SR in (sr AND HASH_SR_DINIS = 0, w0)))
              = (True, w1)"
      using True by (auto simp: w1_def split_def)
    have "len' < qs
      \<and> (\<exists>w0 sr. io_read32 p w0 HASH_SR = (sr, w') \<and> sr AND HASH_SR_DINIS \<noteq> 0)
      \<and> (\<exists>k. d' = drop (4 * k) (drop 4 d) \<and> 4 * k \<le> length (drop 4 d))"
      using "1.IH" [of "(True, w1)" True w1 v "(res, w2)" res w2] go lv hw res rec by simp
    then obtain k where lt: "len' < qs"
      and rd: "\<exists>w0 sr. io_read32 p w0 HASH_SR = (sr, w') \<and> sr AND HASH_SR_DINIS \<noteq> 0"
      and k: "d' = drop (4 * k) (drop 4 d)" "4 * k \<le> length (drop 4 d)" by blast
    have "d' = drop (4 * Suc k) d" using k(1) by (simp add: add.commute)
    moreover have "4 * Suc k \<le> length d" using k(2) l4 by simp
    ultimately show ?thesis using lt rd by blast
  qed
qed

text \<open>
  C4, as stated, fails on the sense of the flag. With fewer bytes left than the
  threshold and the flag DINIS set, the loop writes nothing and stops; with the flag
  clear it writes a word.
\<close>

theorem feed_loop_flag_counterexample:
  "fst (io_read32 sim_platform sim_idle HASH_SR) AND HASH_SR_DINIS \<noteq> 0
   \<and> feed_loop sim_platform 68 [1, 2, 3, 4] 4 sim_idle = Inr (TEE_SUCCESS, [1, 2, 3, 4], 4, sim_idle)
   \<and> fst (io_read32 sim_platform (sim_idle\<lparr>sr_script := [0]\<rparr>) HASH_SR) AND HASH_SR_DINIS = 0
   \<and> feed_loop sim_platform 68 [1, 2, 3, 4] 4 (sim_idle\<lparr>sr_script := [0]\<rparr>)
       = Inr (TEE_SUCCESS, [], 0, sim_idle\<lparr>din := [le32 1 2 3 4]\<rparr>)"
  by code_simp

text \<open>
  C4, amended. After the pending bytes, the loop consumes the data one 32-bit word per
  round while \<open>len \<ge> fifo_threshold\<close> or the flag DINIS (status register bit 0) is
  clear; it reads the status register only when \<open>len < fifo_threshold\<close>. It stops,
  with nothing more written, exactly when \<open>len < fifo_threshold\<close> and the flag is
  set. Hence on a successful exit the length left is below the threshold, the last
  access was a read of the status register that showed DINIS set, and a whole number
  of words was taken from the data.
\<close>

theorem feed_loop_condition:
  "(qs \<le> len \<or> fst (io_read32 p w HASH_SR) AND HASH_SR_DINIS = 0 \<longrightarrow>
      feed_loop p qs d len w =
        (case load32 d 0 of
           None \<Rightarrow> Inl OutOfBounds
         | Some v \<Rightarrow>
             (let (res, w2) = hash_write_data p
                                (if qs \<le> len then w else snd (io_read32 p w HASH_SR)) v
              in if res \<noteq> TEE_SUCCESS then Inr (res, d, len, w2)
                 else feed_loop p qs (drop 4 d) (sz_sub len 4) w2)))
   \<and> (len < qs \<and> fst (io_read32 p w HASH_SR) AND HASH_SR_DINIS \<noteq> 0 \<longrightarrow>
        feed_loop p qs d len w = Inr (TEE_SUCCESS, d, len, snd (io_read32 p w HASH_SR)))
   \<and> (feed_loop p qs d len w = Inr (TEE_SUCCESS, d', len', w') \<longrightarrow>
        len' < qs
        \<and> (\<exists>w0 sr. io_read32 p w0 HASH_SR = (sr, w') \<and> sr AND HASH_SR_DINIS \<noteq> 0)
        \<and> (\<exists>k. d' = drop (4 * k) d \<and> 4 * k \<le> length d))"
proof (intro conjI impI)
  assume "qs \<le> len \<or> fst (io_read32 p w HASH_SR) AND HASH_SR_DINIS = 0"
  then show "feed_loop p qs d len w =
        (case load32 d 0 of
           None \<Rightarrow> Inl OutOfBounds
         | Some v \<Rightarrow>
             (let (res, w2) = hash_write_data p
                                (if qs \<le> len then w else snd (io_read32 p w HASH_SR)) v
              in if res \<noteq> TEE_SUCCESS then Inr (res, d, len, w2)
                 else feed_loop p qs (drop 4 d) (sz_sub len 4) w2))"
    by (subst feed_loop.simps) (auto simp: split_def Let_def split: option.splits)
next
  assume "len < qs \<and> fst (io_read32 p w HASH_SR) AND HASH_SR_DINIS \<noteq> 0"
  then show "feed_loop p qs d len w = Inr (TEE_SUCCESS, d, len, snd (io_read32 p w HASH_SR))"
    by (subst feed_loop.simps) (simp add: split_def Let_def)
next
  assume a: "feed_loop p qs d len w = Inr (TEE_SUCCESS, d', len', w')"
  from feed_loop_exit [OF a]
  show "len' < qs" "\<exists>w0 sr. io_read32 p w0 HASH_SR = (sr, w') \<and> sr AND HASH_SR_DINIS \<noteq> 0"
    "\<exists>k. d' = drop (4 * k) d \<and> 4 * k \<le> length d" by blast+
qed


theorem feed_loop_condition_witness:
  "feed_loop sim_platform 68 [1, 2, 3, 4] 4 (sim_idle\<lparr>sr_script := [0]\<rparr>)
     = Inr (TEE_SUCCESS, [], 0, sim_idle\<lparr>din := [le32 1 2 3 4]\<rparr>)
   \<and> feed_loop sim_platform 68 [1, 2, 3, 4] 4 sim_idle = Inr (TEE_SUCCESS, [1, 2, 3, 4], 4, sim_idle)
   \<and> (\<exists>k. ([] :: u8 list) = drop (4 * k) [1, 2, 3, 4] \<and> 4 * k \<le> length [1 :: u8, 2, 3, 4])"
proof -
  let ?w = "sim_idle\<lparr>sr_script := [0]\<rparr>"
  have e: "feed_loop sim_platform 68 [1, 2, 3, 4] 4 ?w
             = Inr (TEE_SUCCESS, [], 0, sim_idle\<lparr>din := [le32 1 2 3 4]\<rparr>)"
    by code_simp
  have s: "fst (io_read32 sim_platform sim_idle HASH_SR) AND HASH_SR_DINIS \<noteq> 0"
          "snd (io_read32 sim_platform sim_idle HASH_SR) = sim_idle"
    by code_simp+
  show ?thesis
    using feed_loop_condition [where p = sim_platform and qs = 68 and d = "[1, 2, 3, 4]"
            and len = 4 and w = ?w and d' = "[]" and len' = 0
            and w' = "sim_idle\<lparr>din := [le32 1 2 3 4]\<rparr>"]
          feed_loop_condition [where p = sim_platform and qs = 68 and d = "[1, 2, 3, 4]"
            and len = 4 and w = sim_idle]
          e s
    by simp
qed

subsection \<open>The context-class table\<close>

lemma same_class_regs: "same_class c c' \<Longrightarrow> get_save_registers c' = get_save_registers c"
  by (rule ext) (simp add: same_class_def get_save_registers_def cong: if_cong)

lemma get_save_registers_table:
  "save_mode c = class_code k \<Longrightarrow>
   get_save_registers c (0, 0, 0, 0) =
     (case spec_class_table k of (nb, first, hnb, hfirst) \<Rightarrow>
        if mode c = STM32_HMAC_MODE then (nb, first, hnb, hfirst) else (nb, first, 0, 0))"
  by (cases k)
     (simp_all add: get_save_registers_def class_code_def spec_class_table_def
        SAVE_SMALL_def SAVE_BIG_def SAVE_SHA3_def
        SAVE_SMALL_NB_REG_def SAVE_SMALL_FIRST_REG_def SAVE_SMALL_HMAC_NB_REG_def
        SAVE_SMALL_HMAC_FIRST_REG_def SAVE_BIG_NB_REG_def SAVE_BIG_FIRST_REG_def
        SAVE_BIG_HMAC_NB_REG_def SAVE_BIG_HMAC_FIRST_REG_def SAVE_SHA3_NB_REG_def
        SAVE_SHA3_FIRST_REG_def SAVE_SHA3_HMAC_NB_REG_def SAVE_SHA3_HMAC_FIRST_REG_def)

lemma algo_params_class:
  "algo_params al = Some (cap, dg, bs, sm) \<Longrightarrow> \<exists>k. spec_class_of al = Some k \<and> sm = class_code k"
  by (cases al) (auto simp: algo_params_def spec_class_of_def class_code_def)

lemma alloc_success:
  assumes "stm32_hash_alloc dev h c0 md al = (TEE_SUCCESS, c, h')"
  shows "(\<exists>k. spec_class_of al = Some k \<and> save_mode c = class_code k) \<and> mode c = md
         \<and> (\<exists>b. csr c = Ptr b (replicate (fst (get_save_registers c (0, 0, 0, 0))
                                        + fst (snd (snd (get_save_registers c (0, 0, 0, 0))))) 0))"
  using assms unfolding stm32_hash_alloc_def
  by (auto simp: Let_def get_save_registers_def split: option.splits prod.splits if_splits
           dest!: algo_params_class)

lemma init_same_class:
  assumes "stm32_hash_init p c key len w = Inr (r, c', w')"
  shows "same_class c c'"
proof (cases "(key = None \<or> len = 0) \<and> mode c \<noteq> STM32_HASH_MODE")
  case True
  with assms show ?thesis by (auto simp: stm32_hash_init_def same_class_refl)
next
  case False
  from init_proceeds [OF False assms] show ?thesis by blast
qed

lemma final_digest_frame:
  "final_digest p c digest key len w = Inr (r, c', digest', w') \<Longrightarrow> c' = c"
  unfolding final_digest_def leave_final_def
  by (auto simp: Let_def split: sum.splits prod.splits if_splits)

lemma final_same_class:
  assumes "stm32_hash_final p c digest key len w = Inr (r, c', digest', w')"
  shows "same_class c c'"
  using assms unfolding stm32_hash_final_def leave_final_def
  apply (simp add: Let_def split: prod.splits if_splits ptr.splits sum.splits)
  apply (auto dest!: final_digest_frame simp: same_class_def)
  done

lemma write_seq_append: "write_seq p (xs @ ys) w = write_seq p ys (write_seq p xs w)"
  by (induction xs arbitrary: w) simp_all

lemma read_seq_append:
  "read_seq p (xs @ ys) w =
     (fst (read_seq p xs w) @ fst (read_seq p ys (snd (read_seq p xs w))),
      snd (read_seq p ys (snd (read_seq p xs w))))"
  by (induction xs arbitrary: w) (simp_all add: split_def Let_def)

lemma read_seq_length: "length (fst (read_seq p offs w)) = length offs"
  by (induction offs arbitrary: w) (simp_all add: split_def Let_def)

lemma restore_regs_loop_seq:
  "i + src + k \<le> length a \<Longrightarrow>
   restore_regs_loop p k i first src a w =
     Inr (write_seq p (zip (map HASH_CSR [first + i..<first + i + k]) (drop (i + src) a)) w)"
proof (induction k arbitrary: i w)
  case 0
  then show ?case by simp
next
  case (Suc k)
  have lt: "i + src < length a" using Suc.prems by simp
  have u: "[first + i..<first + i + Suc k] = (first + i) # [first + Suc i..<first + Suc i + k]"
    by (simp add: upt_conv_Cons)
  have d: "drop (i + src) a = a ! (i + src) # drop (Suc i + src) a"
    using lt by (simp add: Cons_nth_drop_Suc)
  from Suc.prems have "Suc i + src + k \<le> length a" by simp
  from Suc.IH [OF this]
  show ?case using lt by (simp only: restore_regs_loop.simps u d) (simp add: add.commute)
qed

lemma save_regs_loop_seq:
  "i + dst + k \<le> length a \<Longrightarrow>
   save_regs_loop p k i first dst a w =
     Inr (take (i + dst) a @ fst (read_seq p (map HASH_CSR [first + i..<first + i + k]) w)
            @ drop (i + dst + k) a,
          snd (read_seq p (map HASH_CSR [first + i..<first + i + k]) w))"
proof (induction k arbitrary: i a w)
  case 0
  then show ?case by simp
next
  case (Suc k)
  have lt: "i + dst < length a" using Suc.prems by simp
  have u: "[first + i..<first + i + Suc k] = (first + i) # [first + Suc i..<first + Suc i + k]"
    by (simp add: upt_conv_Cons)
  obtain v w1 where r: "io_read32 p w (HASH_CSR (i + first)) = (v, w1)" by (cases "io_read32 p w (HASH_CSR (i + first))")
  then have r': "io_read32 p w (HASH_CSR (first + i)) = (v, w1)" by (simp add: add.commute)
  from Suc.prems have "Suc i + dst + k \<le> length (a[i + dst := v])" by simp
  from Suc.IH [OF this, of w1]
  have ih: "save_regs_loop p k (Suc i) first dst (a[i + dst := v]) w1 =
     Inr (take (Suc i + dst) (a[i + dst := v])
            @ fst (read_seq p (map HASH_CSR [first + Suc i..<first + Suc i + k]) w1)
            @ drop (Suc i + dst + k) (a[i + dst := v]),
          snd (read_seq p (map HASH_CSR [first + Suc i..<first + Suc i + k]) w1))" .
  have "take (Suc (i + dst)) (a[i + dst := v]) = (take (Suc (i + dst)) a)[i + dst := v]"
    by (simp add: take_update_swap)
  also have "\<dots> = (take (i + dst) a @ [a ! (i + dst)])[i + dst := v]"
    using lt by (simp only: take_Suc_conv_app_nth)
  also have "\<dots> = take (i + dst) a @ [v]"
    using lt by (simp add: list_update_append)
  finally have t: "take (Suc (i + dst)) (a[i + dst := v]) = take (i + dst) a @ [v]" .
  have dr: "drop (Suc i + dst + k) (a[i + dst := v]) = drop (i + dst + Suc k) a"
    by simp
  show ?case
    using lt by (simp only: save_regs_loop.simps u r) (simp add: ih t r' split_def Let_def)
qed

lemma spec_offsets_regs:
  assumes "save_mode c = class_code k"
  shows "get_save_registers c (0, 0, 0, 0) = (nb, first, hnb, hfirst) \<Longrightarrow>
         spec_saved_offsets k (mode c) =
           map HASH_CSR [first..<first + nb] @ map HASH_CSR [hfirst..<hfirst + hnb]"
  using assms
  by (cases k)
     (auto simp: get_save_registers_def class_code_def spec_class_table_def spec_saved_offsets_def
        SAVE_SMALL_def SAVE_BIG_def SAVE_SHA3_def
        SAVE_SMALL_NB_REG_def SAVE_SMALL_FIRST_REG_def SAVE_SMALL_HMAC_NB_REG_def
        SAVE_SMALL_HMAC_FIRST_REG_def SAVE_BIG_NB_REG_def SAVE_BIG_FIRST_REG_def
        SAVE_BIG_HMAC_NB_REG_def SAVE_BIG_HMAC_FIRST_REG_def SAVE_SHA3_NB_REG_def
        SAVE_SHA3_FIRST_REG_def SAVE_SHA3_HMAC_NB_REG_def SAVE_SHA3_HMAC_FIRST_REG_def
        split: if_splits)

lemma zip_append_drop:
  "length xs \<le> length zs \<Longrightarrow> zip (xs @ ys) zs = zip xs zs @ zip ys (drop (length xs) zs)"
proof (induction xs arbitrary: zs)
  case Nil
  then show ?case by simp
next
  case (Cons x xs)
  then show ?case by (cases zs) simp_all
qed

lemma restore_context_writes:
  assumes k: "save_mode c = class_code k"
      and p: "csr c = Ptr a rs"
      and l: "length (spec_saved_offsets k (mode c)) \<le> length rs"
  shows "restore_context p c w =
           Inr (TEE_SUCCESS,
                write_seq p ((HASH_IMR, imr c) # (HASH_STR, str c)
                             # (HASH_CR, cr c OR HASH_CR_INIT)
                             # zip (spec_saved_offsets k (mode c)) rs) w)"
proof -
  obtain nb first hnb hfirst
    where g: "get_save_registers c (0, 0, 0, 0) = (nb, first, hnb, hfirst)"
    by (cases "get_save_registers c (0, 0, 0, 0)") auto
  note o = spec_offsets_regs [OF k g]
  from l o have len: "nb + hnb \<le> length rs" by simp
  have l1: "0 + 0 + nb \<le> length rs" and l2: "0 + nb + hnb \<le> length rs" using len by simp_all
  have z: "zip (spec_saved_offsets k (mode c)) rs =
             zip (map HASH_CSR [first..<first + nb]) rs
             @ zip (map HASH_CSR [hfirst..<hfirst + hnb]) (drop nb rs)"
    using len by (simp add: o zip_append_drop)
  show ?thesis
    unfolding restore_context_def Let_def g p
    by (simp add: restore_regs_loop_seq [OF l1] restore_regs_loop_seq [OF l2] z write_seq_append)
qed

lemma save_context_reads:
  assumes k: "save_mode c = class_code k"
      and p: "csr c = Ptr a rs"
      and l: "length (spec_saved_offsets k (mode c)) \<le> length rs"
      and b: "wait_end_busy p w = (TEE_SUCCESS, w1)"
      and s: "io_read32 p w1 HASH_SR = (sr, w2)"
      and f: "sr AND HASH_SR_DINIS \<noteq> 0"
      and r: "read_seq p (HASH_IMR # HASH_STR # HASH_CR # spec_saved_offsets k (mode c)) w2
                = (vs, w3)"
  shows "save_context p c w =
           Inr (TEE_SUCCESS,
                c\<lparr>imr := vs ! 0, str := vs ! 1, cr := vs ! 2,
                  csr := Ptr a (drop 3 vs @ drop (length vs - 3) rs)\<rparr>, w3)"
proof -
  obtain v1 w3a where r1: "io_read32 p w2 HASH_IMR = (v1, w3a)" by (cases "io_read32 p w2 HASH_IMR")
  obtain v2 w4 where r2: "io_read32 p w3a HASH_STR = (v2, w4)" by (cases "io_read32 p w3a HASH_STR")
  obtain v3 w5 where r3: "io_read32 p w4 HASH_CR = (v3, w5)" by (cases "io_read32 p w4 HASH_CR")
  let ?c1 = "c\<lparr>imr := v1, str := v2, cr := v3\<rparr>"
  obtain nb first hnb hfirst
    where g: "get_save_registers ?c1 (0, 0, 0, 0) = (nb, first, hnb, hfirst)"
    by (cases "get_save_registers ?c1 (0, 0, 0, 0)") auto
  have k1: "save_mode ?c1 = class_code k" using k by simp
  from spec_offsets_regs [OF k1 g]
  have o: "spec_saved_offsets k (mode c) =
             map HASH_CSR [first..<first + nb] @ map HASH_CSR [hfirst..<hfirst + hnb]" by simp
  from l o have len: "nb + hnb \<le> length rs" by simp
  let ?A = "map HASH_CSR [first..<first + nb]"
  let ?B = "map HASH_CSR [hfirst..<hfirst + hnb]"
  let ?vs1 = "fst (read_seq p ?A w5)"
  let ?w6 = "snd (read_seq p ?A w5)"
  let ?vs2 = "fst (read_seq p ?B ?w6)"
  let ?w7 = "snd (read_seq p ?B ?w6)"
  have l1: "0 + 0 + nb \<le> length rs" using len by simp
  have s1: "save_regs_loop p nb 0 first 0 rs w5 = Inr (?vs1 @ drop nb rs, ?w6)"
    using save_regs_loop_seq [OF l1, of p first w5] by simp
  have n1: "length ?vs1 = nb" by (simp add: read_seq_length)
  have n2: "length ?vs2 = hnb" by (simp add: read_seq_length)
  have l2: "0 + nb + hnb \<le> length (?vs1 @ drop nb rs)" using len n1 by simp
  have s2: "save_regs_loop p hnb 0 hfirst nb (?vs1 @ drop nb rs) ?w6
              = Inr (?vs1 @ ?vs2 @ drop (nb + hnb) rs, ?w7)"
    using save_regs_loop_seq [OF l2, of p hfirst ?w6] n1 by (simp add: add.commute)
  have rs: "read_seq p (HASH_IMR # HASH_STR # HASH_CR # spec_saved_offsets k (mode c)) w2
              = (v1 # v2 # v3 # ?vs1 @ ?vs2, ?w7)"
    by (simp add: r1 r2 r3 o read_seq_append)
  from r rs have vs: "vs = v1 # v2 # v3 # ?vs1 @ ?vs2" and w3: "w3 = ?w7" by simp_all
  have lv: "length vs - 3 = nb + hnb" using vs n1 n2 by simp
  show ?thesis
    unfolding save_context_def
    using f by (simp add: b s r1 r2 r3 g p s1 s2 vs w3 n1 n2)
qed

lemma offsets_length:
  assumes "save_mode c = class_code k"
  shows "length (spec_saved_offsets k (mode c)) =
           fst (get_save_registers c (0, 0, 0, 0))
           + fst (snd (snd (get_save_registers c (0, 0, 0, 0))))"
proof -
  obtain nb first hnb hfirst
    where g: "get_save_registers c (0, 0, 0, 0) = (nb, first, hnb, hfirst)"
    by (cases "get_save_registers c (0, 0, 0, 0)") auto
  from spec_offsets_regs [OF assms g] show ?thesis by (simp add: g)
qed

lemma alloc_fixes_class:
  assumes "stm32_hash_alloc dev h c0 md al = (TEE_SUCCESS, c, h')"
  shows "class_by_algo c \<and> algo c = al \<and> mode c = md
         \<and> (\<exists>k b. spec_class_of al = Some k
                \<and> csr c = Ptr b (replicate (length (spec_saved_offsets k md)) 0))"
proof -
  from alloc_success [OF assms] obtain k b
    where k: "spec_class_of al = Some k" "save_mode c = class_code k" and m: "mode c = md"
      and p: "csr c = Ptr b (replicate (fst (get_save_registers c (0, 0, 0, 0))
                                        + fst (snd (snd (get_save_registers c (0, 0, 0, 0))))) 0)"
    by blast
  have a: "algo c = al"
    using assms unfolding stm32_hash_alloc_def
    by (auto simp: Let_def split: option.splits prod.splits if_splits)
  from p offsets_length [OF k(2)] m
  have "csr c = Ptr b (replicate (length (spec_saved_offsets k md)) 0)" by simp
  then show ?thesis using k m a by (auto simp: class_by_algo_def)
qed

lemma same_class_by_algo: "same_class c c' \<Longrightarrow> class_by_algo c \<Longrightarrow> class_by_algo c'"
  by (auto simp: same_class_def class_by_algo_def split: option.splits)

lemma class_code_inj: "class_code k = class_code k' \<Longrightarrow> k = k'"
  by (cases k; cases k') (simp_all add: class_code_def SAVE_SMALL_def SAVE_BIG_def SAVE_SHA3_def)

lemma deep_copy_effect:
  assumes "stm32_hash_deep_copy (Some d) (Some s) = Inr (TEE_SUCCESS, Some d')"
  shows "mode d' = mode d \<and> algo d' = algo d \<and> mode s = mode d \<and> algo s = algo d
         \<and> save_mode d' = save_mode s
         \<and> (\<exists>a rs b srs. csr d = Ptr a rs \<and> csr s = Ptr b srs
                \<and> csr d' = Ptr a (take (fst (get_save_registers d' (0, 0, 0, 0))
                                          + fst (snd (snd (get_save_registers d' (0, 0, 0, 0))))) srs
                                    @ drop (fst (get_save_registers d' (0, 0, 0, 0))
                                          + fst (snd (snd (get_save_registers d' (0, 0, 0, 0))))) rs))"
  using assms unfolding stm32_hash_deep_copy_def memcpy_words_def
  by (auto simp: Let_def get_save_registers_def split: option.splits prod.splits if_splits ptr.splits
           cong: if_cong)

lemma deep_copy_keeps_class:
  assumes c: "stm32_hash_deep_copy (Some d) (Some s) = Inr (TEE_SUCCESS, Some d')"
      and d: "class_by_algo d" and s: "class_by_algo s"
  shows "class_by_algo d' \<and> mode d' = mode d \<and> algo d' = algo d \<and> save_mode d' = save_mode d
         \<and> get_save_registers d' = get_save_registers d"
proof -
  from deep_copy_effect [OF c]
  have e: "mode d' = mode d" "algo d' = algo d" "algo s = algo d" "save_mode d' = save_mode s"
    by blast+
  from d s e(3) have sm: "save_mode s = save_mode d"
    by (auto simp: class_by_algo_def split: option.splits)
  have "get_save_registers d' = get_save_registers d"
    by (rule ext) (simp add: get_save_registers_def e sm cong: if_cong)
  then show ?thesis using e sm d by (auto simp: class_by_algo_def split: option.splits)
qed

text \<open>
  C7. The registers saved and restored are those of the context-class table. For a
  session of class \<open>k\<close>, \<open>get_save_registers\<close> gives the table's plain count and
  offset, and the table's HMAC count and offset in HMAC mode (none otherwise): Small 22
  at 0 plus 16 at 38, Big 91 at 0 plus 12 at 91, Sha3 72 at 0 plus 72 at 16. On every
  platform \<open>restore_context\<close> writes IMR, STR, CR (with INIT) and then exactly the
  registers \<open>HASH_CSR\<close> of the table's ranges, in order, from the snapshot words in
  order, and nothing else; \<open>save_context\<close>, once the engine is idle and its input
  flag set, reads IMR, STR, CR and then exactly those registers into those snapshot
  words, leaving the rest of the snapshot alone. A successful \<open>stm32_hash_alloc\<close>
  sets the class from the algorithm (Small for MD5, SHA-1, SHA-224, SHA-256; Big for
  SHA-384, SHA-512; Sha3 for the SHA-3 variants), the mode as asked, and allocates
  exactly that many snapshot words. \<open>init\<close>, \<open>update\<close> and \<open>final\<close> change
  neither the class nor the mode, whatever they return, and a successful
  \<open>stm32_hash_deep_copy\<close> between two sessions whose class is that of their
  algorithm leaves the destination's class, mode, counts and offsets as they were.
\<close>

theorem saved_registers_follow_table:
  "(save_mode c = class_code k \<longrightarrow>
      get_save_registers c (0, 0, 0, 0) =
        (case spec_class_table k of (nb, first, hnb, hfirst) \<Rightarrow>
           if mode c = STM32_HMAC_MODE then (nb, first, hnb, hfirst) else (nb, first, 0, 0)))
   \<and> (save_mode c = class_code k \<and> csr c = Ptr a rs
        \<and> length (spec_saved_offsets k (mode c)) \<le> length rs \<longrightarrow>
        restore_context p c w =
          Inr (TEE_SUCCESS,
               write_seq p ((HASH_IMR, imr c) # (HASH_STR, str c)
                            # (HASH_CR, cr c OR HASH_CR_INIT)
                            # zip (spec_saved_offsets k (mode c)) rs) w))
   \<and> (save_mode c = class_code k \<and> csr c = Ptr a rs
        \<and> length (spec_saved_offsets k (mode c)) \<le> length rs
        \<and> wait_end_busy p w = (TEE_SUCCESS, w1) \<and> io_read32 p w1 HASH_SR = (sr, w2)
        \<and> sr AND HASH_SR_DINIS \<noteq> 0
        \<and> read_seq p (HASH_IMR # HASH_STR # HASH_CR # spec_saved_offsets k (mode c)) w2
              = (vs, w3) \<longrightarrow>
        save_context p c w =
          Inr (TEE_SUCCESS,
               c\<lparr>imr := vs ! 0, str := vs ! 1, cr := vs ! 2,
                 csr := Ptr a (drop 3 vs @ drop (length vs - 3) rs)\<rparr>, w3))
   \<and> (stm32_hash_alloc dev h c0 md al = (TEE_SUCCESS, c, h') \<longrightarrow>
        class_by_algo c \<and> algo c = al \<and> mode c = md
        \<and> (\<exists>k b. spec_class_of al = Some k
               \<and> csr c = Ptr b (replicate (length (spec_saved_offsets k md)) 0)))
   \<and> (stm32_hash_init p c key klen w = Inr (r, c', w') \<longrightarrow>
        same_class c c' \<and> get_save_registers c' = get_save_registers c
        \<and> (class_by_algo c \<longrightarrow> class_by_algo c'))
   \<and> (stm32_hash_update p c buffer len w = Inr (r, c', w') \<longrightarrow>
        same_class c c' \<and> get_save_registers c' = get_save_registers c
        \<and> (class_by_algo c \<longrightarrow> class_by_algo c'))
   \<and> (stm32_hash_final p c digest key klen w = Inr (r, c', digest', w') \<longrightarrow>
        same_class c c' \<and> get_save_registers c' = get_save_registers c
        \<and> (class_by_algo c \<longrightarrow> class_by_algo c'))
   \<and> (stm32_hash_deep_copy (Some d) (Some s) = Inr (TEE_SUCCESS, Some d')
        \<and> class_by_algo d \<and> class_by_algo s \<longrightarrow>
        class_by_algo d' \<and> mode d' = mode d \<and> algo d' = algo d \<and> save_mode d' = save_mode d
        \<and> get_save_registers d' = get_save_registers d)"
proof (intro conjI impI)
  assume "save_mode c = class_code k"
  then show "get_save_registers c (0, 0, 0, 0) =
        (case spec_class_table k of (nb, first, hnb, hfirst) \<Rightarrow>
           if mode c = STM32_HMAC_MODE then (nb, first, hnb, hfirst) else (nb, first, 0, 0))"
    by (rule get_save_registers_table)
next
  assume a: "save_mode c = class_code k \<and> csr c = Ptr a rs
        \<and> length (spec_saved_offsets k (mode c)) \<le> length rs"
  show "restore_context p c w =
          Inr (TEE_SUCCESS,
               write_seq p ((HASH_IMR, imr c) # (HASH_STR, str c)
                            # (HASH_CR, cr c OR HASH_CR_INIT)
                            # zip (spec_saved_offsets k (mode c)) rs) w)"
    by (rule restore_context_writes [where k = k]) (use a in blast)+
next
  assume a: "save_mode c = class_code k \<and> csr c = Ptr a rs
        \<and> length (spec_saved_offsets k (mode c)) \<le> length rs
        \<and> wait_end_busy p w = (TEE_SUCCESS, w1) \<and> io_read32 p w1 HASH_SR = (sr, w2)
        \<and> sr AND HASH_SR_DINIS \<noteq> 0
        \<and> read_seq p (HASH_IMR # HASH_STR # HASH_CR # spec_saved_offsets k (mode c)) w2
              = (vs, w3)"
  show "save_context p c w =
          Inr (TEE_SUCCESS,
               c\<lparr>imr := vs ! 0, str := vs ! 1, cr := vs ! 2,
                 csr := Ptr a (drop 3 vs @ drop (length vs - 3) rs)\<rparr>, w3)"
    by (rule save_context_reads [where k = k and ?w1.0 = w1 and ?w2.0 = w2 and sr = sr])
       (use a in blast)+
next
  assume a: "stm32_hash_alloc dev h c0 md al = (TEE_SUCCESS, c, h')"
  from alloc_fixes_class [OF a]
  show "class_by_algo c" "algo c = al" "mode c = md"
    "\<exists>k b. spec_class_of al = Some k
               \<and> csr c = Ptr b (replicate (length (spec_saved_offsets k md)) 0)"
    by blast+
next
  assume a: "stm32_hash_init p c key klen w = Inr (r, c', w')"
  show s: "same_class c c'" by (rule init_same_class [OF a])
  then show "get_save_registers c' = get_save_registers c" by (rule same_class_regs)
  assume "class_by_algo c"
  with s show "class_by_algo c'" by (rule same_class_by_algo)
next
  assume a: "stm32_hash_update p c buffer len w = Inr (r, c', w')"
  from update_effect [OF a] show s: "same_class c c'" by blast
  then show "get_save_registers c' = get_save_registers c" by (rule same_class_regs)
  assume "class_by_algo c"
  with s show "class_by_algo c'" by (rule same_class_by_algo)
next
  assume a: "stm32_hash_final p c digest key klen w = Inr (r, c', digest', w')"
  show s: "same_class c c'" by (rule final_same_class [OF a])
  then show "get_save_registers c' = get_save_registers c" by (rule same_class_regs)
  assume "class_by_algo c"
  with s show "class_by_algo c'" by (rule same_class_by_algo)
next
  assume a: "stm32_hash_deep_copy (Some d) (Some s) = Inr (TEE_SUCCESS, Some d')
        \<and> class_by_algo d \<and> class_by_algo s"
  then have "class_by_algo d' \<and> mode d' = mode d \<and> algo d' = algo d \<and> save_mode d' = save_mode d
         \<and> get_save_registers d' = get_save_registers d"
    by (intro deep_copy_keeps_class [where s = s]) blast+
  then show "class_by_algo d'" "mode d' = mode d" "algo d' = algo d" "save_mode d' = save_mode d"
    "get_save_registers d' = get_save_registers d" by simp_all
qed

theorem saved_registers_follow_table_witness:
  "get_save_registers (sha256_session STM32_HMAC_MODE) (0, 0, 0, 0) = (22, 0, 16, 38)
   \<and> spec_saved_offsets Small STM32_HMAC_MODE = map HASH_CSR ([0..<22] @ [38..<54])
   \<and> class_by_algo (sha256_session STM32_HMAC_MODE)
   \<and> (\<exists>b. csr (sha256_session STM32_HMAC_MODE) = Ptr b (replicate 38 0)
          \<and> restore_context sim_platform (sha256_session STM32_HMAC_MODE) sim_idle =
              Inr (TEE_SUCCESS,
                   write_seq sim_platform
                     ((HASH_IMR, 0) # (HASH_STR, 0) # (HASH_CR, HASH_CR_INIT)
                      # zip (map HASH_CSR ([0..<22] @ [38..<54])) (replicate 38 0)) sim_idle)
          \<and> (\<exists>vs w3.
                read_seq sim_platform
                  (HASH_IMR # HASH_STR # HASH_CR # map HASH_CSR ([0..<22] @ [38..<54])) sim_idle
                  = (vs, w3)
                \<and> length vs = 41
                \<and> save_context sim_platform (sha256_session STM32_HMAC_MODE) sim_idle =
                    Inr (TEE_SUCCESS,
                         (sha256_session STM32_HMAC_MODE)
                           \<lparr>imr := vs ! 0, str := vs ! 1, cr := vs ! 2,
                            csr := Ptr b (drop 3 vs)\<rparr>, w3)))
   \<and> (\<exists>d'. stm32_hash_deep_copy (Some (sha256_session STM32_HMAC_MODE))
                 (Some ((sha256_session STM32_HMAC_MODE)\<lparr>cr := 5\<rparr>)) = Inr (TEE_SUCCESS, Some d')
             \<and> cr d' = 5 \<and> class_by_algo d'
             \<and> get_save_registers d' (0, 0, 0, 0) = (22, 0, 16, 38))"
proof -
  let ?H = "sha256_session STM32_HMAC_MODE"
  let ?a = "stm32_hash_alloc (Some \<lparr>caps = 0x7F\<rparr>) empty_heap blank_context STM32_HMAC_MODE
              STM32_HASH_SHA256"
  let ?offs = "map HASH_CSR ([0..<22] @ [38..<54])"
  let ?rd = "read_seq sim_platform (HASH_IMR # HASH_STR # HASH_CR # ?offs) sim_idle"
  have k: "save_mode ?H = class_code Small"
    by (simp add: sha256_session_fields class_code_def)
  have r: "fst ?a = TEE_SUCCESS"
    by (simp add: stm32_hash_alloc_def algo_params_def calloc_def empty_heap_def Let_def
          CAPS_SHA2_256_def BIT_def split_def)
  have a: "?a = (TEE_SUCCESS, ?H, snd (snd ?a))"
    using r by (simp add: sha256_session_def prod_eq_iff)
  have z: "imr ?H = 0" "str ?H = 0" "cr ?H = 0" "remain_len ?H = 0"
    by (simp_all add: sha256_session_def stm32_hash_alloc_def algo_params_def calloc_def
          empty_heap_def blank_context_def get_save_registers_def Let_def CAPS_SHA2_256_def BIT_def
          split_def)
  have o: "spec_saved_offsets Small STM32_HMAC_MODE = ?offs"
    by (simp add: spec_saved_offsets_def spec_class_table_def)
  have lo: "length ?offs = 38" by simp
  note T = saved_registers_follow_table [where c = ?H and k = Small
            and dev = "Some \<lparr>caps = 0x7F\<rparr>" and h = empty_heap and ?c0.0 = blank_context
            and md = STM32_HMAC_MODE and al = STM32_HASH_SHA256 and h' = "snd (snd ?a)"
            and p = sim_platform and w = sim_idle and ?w1.0 = sim_idle and ?w2.0 = sim_idle
            and sr = "HASH_SR_DINIS OR HASH_SR_DCIS" and vs = "fst ?rd" and ?w3.0 = "snd ?rd"
            and d = ?H and s = "?H\<lparr>cr := 5\<rparr>"]
  have g1: "get_save_registers ?H (0, 0, 0, 0) = (22, 0, 16, 38)"
    using T [THEN conjunct1] k by (simp add: spec_class_table_def sha256_session_fields)
  from T [THEN conjunct2, THEN conjunct2, THEN conjunct2, THEN conjunct1] a
  have cl: "class_by_algo ?H"
    and "\<exists>k b. spec_class_of STM32_HASH_SHA256 = Some k
               \<and> csr ?H = Ptr b (replicate (length (spec_saved_offsets k STM32_HMAC_MODE)) 0)"
    by simp_all
  then obtain b where cs: "csr ?H = Ptr b (replicate 38 0)"
    by (auto simp: spec_class_of_def o)
  note U = T [where a = b and rs = "replicate 38 0"]
  have re: "restore_context sim_platform ?H sim_idle =
              Inr (TEE_SUCCESS,
                   write_seq sim_platform
                     ((HASH_IMR, 0) # (HASH_STR, 0) # (HASH_CR, HASH_CR_INIT) # zip ?offs (replicate 38 0))
                     sim_idle)"
    using U [THEN conjunct2, THEN conjunct1] k cs
    by (simp add: o z sha256_session_fields)
  have wb: "wait_end_busy sim_platform sim_idle = (TEE_SUCCESS, sim_idle)"
    by (rule wait_end_busy_quiet [OF sim_idle_quiet(1)])
  have rs: "io_read32 sim_platform sim_idle HASH_SR = (HASH_SR_DINIS OR HASH_SR_DCIS, sim_idle)"
    by (simp add: sim_ops sim_read_sr sim_idle_quiet)
  have lv: "length (fst ?rd) = 41"
    by (simp only: read_seq_length) simp
  have sa: "save_context sim_platform ?H sim_idle =
              Inr (TEE_SUCCESS,
                   ?H\<lparr>imr := fst ?rd ! 0, str := fst ?rd ! 1, cr := fst ?rd ! 2,
                       csr := Ptr b (drop 3 (fst ?rd))\<rparr>, snd ?rd)"
    using U [THEN conjunct2, THEN conjunct2, THEN conjunct1] k cs wb rs idle_flags(2) lv
    by (simp add: o sha256_session_fields del: read_seq.simps)
  have g5: "\<And>x y z. get_save_registers (?H\<lparr>cr := x, remain_buf := y, csr := z\<rparr>) (0, 0, 0, 0)
                     = (22, 0, 16, 38)"
    using g1 by (simp add: get_save_registers_def cong: if_cong)
  have dc: "\<exists>d'. stm32_hash_deep_copy (Some ?H) (Some (?H\<lparr>cr := 5\<rparr>)) = Inr (TEE_SUCCESS, Some d')
             \<and> cr d' = 5"
    by (simp add: stm32_hash_deep_copy_def memcpy_words_def memcpy_at_def cs z g5 Let_def
          sha256_session_fields)
  then obtain d' where d1: "stm32_hash_deep_copy (Some ?H) (Some (?H\<lparr>cr := 5\<rparr>)) = Inr (TEE_SUCCESS, Some d')"
    and d2: "cr d' = 5" by blast
  have cl5: "class_by_algo (?H\<lparr>cr := 5\<rparr>)" using cl by (auto simp: class_by_algo_def split: option.splits)
  from T [where d' = d', THEN conjunct2, THEN conjunct2, THEN conjunct2, THEN conjunct2,
          THEN conjunct2, THEN conjunct2, THEN conjunct2] d1 cl cl5
  have d3: "class_by_algo d'" "get_save_registers d' = get_save_registers ?H" by simp_all
  have rd: "?rd = (fst ?rd, snd ?rd)" by simp
  show ?thesis
    apply (intro conjI)
        apply (rule g1)
       apply (rule o)
      apply (rule cl)
     apply (rule exI [of _ b], intro conjI)
       apply (rule cs)
      apply (rule re)
     apply (rule exI [of _ "fst ?rd"], rule exI [of _ "snd ?rd"], intro conjI)
       apply (rule rd)
      apply (rule lv)
     apply (rule sa)
    apply (rule exI [of _ d'])
    using d1 d2 d3 g1 apply simp
    done
qed

subsection \<open>Interleaved sessions\<close>











































lemma init_bit: "(x OR HASH_CR_INIT) AND HASH_CR_INIT \<noteq> 0"
  by (simp add: HASH_CR_INIT_def BIT_def bit_eq_iff bit_simps) (rule exI [of _ 2], simp)













end
